theory Spec2Isabelle
  imports Main
begin

section \<open>Values, closures and the heap\<close>

text \<open>
  The library is one class, \<open>MyPromise\<close>, whose instances hold a state, a value and two
  arrays of callbacks. Promises, and the \<open>results\<close> array and \<open>resultCount\<close> counter
  that the closures of one combinator call share, are mutable and aliased, so they live
  in an explicit heap and are named by their addresses.
\<close>

datatype val =
    Undefined
  | Num int
  | Str string
  | Promise nat
  | Array nat
  | Obj "(string \<times> val) list"
  | UncaughtPromiseError val
  | ReferenceError string
  | TypeError string

datatype outcome = Return val | Throw val

datatype pstate = PENDING | FULFILLED | REJECTED

text \<open>
  The variables a combinator's closures capture: the cell holding \<open>results\<close> and
  \<open>resultCount\<close>, \<open>promiseArray.length\<close>, and the promise whose \<open>resolve\<close> and
  \<open>reject\<close> the resolver received.
\<close>

record scope =
  cell :: nat
  len :: nat
  self :: nat

text \<open>
  Function values, one constructor for each closure the source creates. \<open>User i f\<close> is a
  handler supplied by the caller: it returns or throws a value computed from its
  argument, and \<open>i\<close> names it in the trace of handler calls. \<open>OnSuccess p\<close> and
  \<open>OnFailed p\<close> are the arrow functions \<open>#onSuccess\<close> and \<open>#onFailed\<close> of the promise
  at \<open>p\<close>; \<open>ThenCb\<close> and \<open>CatchCb\<close> are the two closures that \<open>then\<close> pushes, with the
  handler they wrap (absent when it is falsy) and the promise \<open>then\<close> returns.
\<close>

datatype fn =
    User nat "val \<Rightarrow> outcome"
  | OnSuccess nat
  | OnFailed nat
  | ThenCb "fn option" nat
  | CatchCb "fn option" nat
  | FinallyThen fn
  | FinallyCatch fn
  | AllThen scope nat
  | AllCatch scope
  | AllSettledThen scope nat
  | AllSettledCatch scope nat
  | AnyThen scope
  | AnyCatch scope nat

record promise =
  state :: pstate
  pvalue :: val
  thenCbs :: "fn list"
  catchCbs :: "fn list"

text \<open>A JavaScript array may have holes: \<open>results[2] = v\<close> on an empty array leaves two.\<close>

record results_cell =
  results :: "val option list"
  resultCount :: nat

record heap =
  promises :: "nat \<Rightarrow> promise"
  next_promise :: nat
  cells :: "nat \<Rightarrow> results_cell"
  next_cell :: nat
  calls :: "(nat \<times> val) list"

definition new_promise :: promise where
  "new_promise = \<lparr>state = PENDING, pvalue = Undefined, thenCbs = [], catchCbs = []\<rparr>"

definition new_cell :: results_cell where
  "new_cell = \<lparr>results = [], resultCount = 0\<rparr>"

definition empty_heap :: heap where
  "empty_heap = \<lparr>promises = (\<lambda>_. new_promise), next_promise = 0,
                 cells = (\<lambda>_. new_cell), next_cell = 0, calls = []\<rparr>"

datatype queue = ThenQ | CatchQ

definition cbs :: "queue \<Rightarrow> promise \<Rightarrow> fn list" where
  "cbs q pr = (case q of ThenQ \<Rightarrow> thenCbs pr | CatchQ \<Rightarrow> catchCbs pr)"

definition set_cbs :: "queue \<Rightarrow> fn list \<Rightarrow> promise \<Rightarrow> promise" where
  "set_cbs q fs pr = (case q of ThenQ \<Rightarrow> pr\<lparr>thenCbs := fs\<rparr> | CatchQ \<Rightarrow> pr\<lparr>catchCbs := fs\<rparr>)"

definition upd :: "nat \<Rightarrow> (promise \<Rightarrow> promise) \<Rightarrow> heap \<Rightarrow> heap" where
  "upd p f s = s\<lparr>promises := (promises s)(p := f (promises s p))\<rparr>"

definition push :: "nat \<Rightarrow> queue \<Rightarrow> fn \<Rightarrow> heap \<Rightarrow> heap" where
  "push p q f s = upd p (\<lambda>pr. set_cbs q (cbs q pr @ [f]) pr) s"

definition settle :: "nat \<Rightarrow> pstate \<Rightarrow> val \<Rightarrow> heap \<Rightarrow> heap" where
  "settle p st v s = upd p (\<lambda>pr. pr\<lparr>state := st, pvalue := v\<rparr>) s"

definition upd_cell :: "nat \<Rightarrow> (results_cell \<Rightarrow> results_cell) \<Rightarrow> heap \<Rightarrow> heap" where
  "upd_cell k f s = s\<lparr>cells := (cells s)(k := f (cells s k))\<rparr>"

definition assign :: "val option list \<Rightarrow> nat \<Rightarrow> val \<Rightarrow> val option list" where
  "assign xs i v =
     (if i < length xs then xs[i := Some v]
      else xs @ replicate (i - length xs) None @ [Some v])"

definition increment :: "results_cell \<Rightarrow> results_cell" where
  "increment c = c\<lparr>resultCount := Suc (resultCount c)\<rparr>"

definition store :: "nat \<Rightarrow> val \<Rightarrow> results_cell \<Rightarrow> results_cell" where
  "store i v c = c\<lparr>results := assign (results c) i v\<rparr>"

section \<open>Control: results, sequencing and try/catch\<close>

text \<open>
  A call returns the heap it leaves and how it ended. The callbacks run synchronously
  and re-entrantly, so the functions below are defined by recursion on a bound on the
  depth of nested calls; \<open>None\<close> says that the bound was too small.
\<close>

type_synonym res = "(heap \<times> outcome) option"

fun seq :: "res \<Rightarrow> (heap \<Rightarrow> val \<Rightarrow> res) \<Rightarrow> res" where
  "seq None k = None"
| "seq (Some (s, Return v)) k = k s v"
| "seq (Some (s, Throw e)) k = Some (s, Throw e)"

fun try_catch :: "res \<Rightarrow> (heap \<Rightarrow> val \<Rightarrow> res) \<Rightarrow> res" where
  "try_catch None h = None"
| "try_catch (Some (s, Return v)) h = Some (s, Return v)"
| "try_catch (Some (s, Throw e)) h = h s e"

definition ret :: "heap \<Rightarrow> res" where
  "ret s = Some (s, Return Undefined)"

section \<open>The class\<close>

datatype combinator = CAll | CAllSettled | CRace | CAny

text \<open>What a user-written resolver does with the two functions it receives.\<close>

datatype cmd = CallResolve val | CallReject val | ThrowValue val

text \<open>
  The resolvers passed to the constructor: the arrow function inside \<open>then\<close> (with
  \<open>this\<close>, \<open>thenCb\<close> and \<open>catchCb\<close>), the one inside each static combinator (with
  \<open>promiseArray\<close>), and a user-written one.
\<close>

datatype resolver =
    ThenResolver nat "fn option" "fn option"
  | CombResolver combinator "nat list"
  | UserResolver "cmd list"

definition thenFn :: "combinator \<Rightarrow> scope \<Rightarrow> nat \<Rightarrow> fn" where
  "thenFn c sc index =
     (case c of CAll \<Rightarrow> AllThen sc index | CAllSettled \<Rightarrow> AllSettledThen sc index
      | CRace \<Rightarrow> OnSuccess (self sc) | CAny \<Rightarrow> AnyThen sc)"

definition catchFn :: "combinator \<Rightarrow> scope \<Rightarrow> nat \<Rightarrow> fn" where
  "catchFn c sc index =
     (case c of CAll \<Rightarrow> AllCatch sc | CAllSettled \<Rightarrow> AllSettledCatch sc index
      | CRace \<Rightarrow> OnFailed (self sc) | CAny \<Rightarrow> AnyCatch sc index)"

text \<open>\<open>allSettled\<close> counts an input when it visits it, before it registers anything.\<close>

definition visit :: "combinator \<Rightarrow> scope \<Rightarrow> heap \<Rightarrow> heap" where
  "visit c sc s = (if c = CAllSettled then upd_cell (cell sc) increment s else s)"

definition fulfilled_entry :: "val \<Rightarrow> val" where
  "fulfilled_entry v = Obj [(''status'', Str ''fulfilled''), (''value'', v)]"

definition rejected_entry :: "val \<Rightarrow> val" where
  "rejected_entry e = Obj [(''status'', Str ''rejected''), (''reason'', e)]"

definition complete :: "scope \<Rightarrow> heap \<Rightarrow> bool" where
  "complete sc s = (resultCount (cells s (cell sc)) = len sc)"

text \<open>
  \<open>all\<close>, \<open>allSettled\<close> and \<open>any\<close> declare \<open>results\<close> and \<open>resultCount\<close> before the
  loop; \<open>race\<close> declares nothing.
\<close>

definition declare_results :: "combinator \<Rightarrow> heap \<Rightarrow> heap" where
  "declare_results c s =
     (if c = CRace then s
      else s\<lparr>cells := (cells s)(next_cell s := new_cell), next_cell := Suc (next_cell s)\<rparr>)"

text \<open>
  The methods call one another, and a callback may re-enter any of them. Each method is
  written once, over the record of the methods it may call; \<open>depth n\<close> ties the knot for
  calls nested at most \<open>n\<close> deep.
\<close>

record methods =
  m_construct :: "resolver \<Rightarrow> heap \<Rightarrow> res"
  m_run_resolver :: "resolver \<Rightarrow> nat \<Rightarrow> heap \<Rightarrow> res"
  m_exec :: "cmd list \<Rightarrow> nat \<Rightarrow> heap \<Rightarrow> res"
  m_forEach :: "combinator \<Rightarrow> scope \<Rightarrow> nat list \<Rightarrow> nat \<Rightarrow> heap \<Rightarrow> res"
  m_onSuccess :: "nat \<Rightarrow> val \<Rightarrow> heap \<Rightarrow> res"
  m_onFailed :: "nat \<Rightarrow> val \<Rightarrow> heap \<Rightarrow> res"
  m_runCallbacks :: "nat \<Rightarrow> queue \<Rightarrow> heap \<Rightarrow> res"
  m_call :: "fn \<Rightarrow> val \<Rightarrow> heap \<Rightarrow> res"

text \<open>
  \<open>constructor(resolver)\<close>: the fields are initialised, the resolver runs, and what it
  throws goes to \<open>#onFailed\<close>, whose own exception leaves the constructor.
\<close>

definition construct_body :: "methods \<Rightarrow> resolver \<Rightarrow> heap \<Rightarrow> res" where
  "construct_body m r s =
     (let p = next_promise s;
          s1 = s\<lparr>promises := (promises s)(p := new_promise), next_promise := Suc p\<rparr>
      in seq (try_catch (m_run_resolver m r p s1) (\<lambda>s2 e. m_onFailed m p e s2))
             (\<lambda>s3 _. Some (s3, Return (Promise p))))"

definition run_resolver_body :: "methods \<Rightarrow> resolver \<Rightarrow> nat \<Rightarrow> heap \<Rightarrow> res" where
  "run_resolver_body m r p s =
     (case r of
        ThenResolver this thenCb catchCb \<Rightarrow>
          (let s1 = push this ThenQ (ThenCb thenCb p) s;
               s2 = push this CatchQ (CatchCb catchCb p) s1
           in if state (promises s2 this) = FULFILLED then m_runCallbacks m this ThenQ s2
              else if state (promises s2 this) = REJECTED then m_runCallbacks m this CatchQ s2
              else ret s2)
      | CombResolver c promiseArray \<Rightarrow>
          m_forEach m c \<lparr>cell = next_cell s, len = length promiseArray, self = p\<rparr>
            promiseArray 0 (declare_results c s)
      | UserResolver body \<Rightarrow> m_exec m body p s)"

definition exec_body :: "methods \<Rightarrow> cmd list \<Rightarrow> nat \<Rightarrow> heap \<Rightarrow> res" where
  "exec_body m body p s =
     (case body of
        [] \<Rightarrow> ret s
      | CallResolve v # rest \<Rightarrow> seq (m_onSuccess m p v s) (\<lambda>s1 _. m_exec m rest p s1)
      | CallReject e # rest \<Rightarrow> seq (m_onFailed m p e s) (\<lambda>s1 _. m_exec m rest p s1)
      | ThrowValue e # rest \<Rightarrow> Some (s, Throw e))"

text \<open>
  The body of \<open>promiseArray.forEach\<close> in the four combinators:
  \<open>promise.then(thenFn).catch(catchFn)\<close>, where \<open>catch(cb)\<close> is \<open>then(null, cb)\<close>.
\<close>

definition forEach_body ::
  "methods \<Rightarrow> combinator \<Rightarrow> scope \<Rightarrow> nat list \<Rightarrow> nat \<Rightarrow> heap \<Rightarrow> res" where
  "forEach_body m c sc promiseArray index s =
     (case promiseArray of
        [] \<Rightarrow> ret s
      | promise # rest \<Rightarrow>
          seq (m_construct m (ThenResolver promise (Some (thenFn c sc index)) None)
                 (visit c sc s))
            (\<lambda>s1 r. case r of
                 Promise p1 \<Rightarrow>
                   seq (m_construct m (ThenResolver p1 None (Some (catchFn c sc index))) s1)
                     (\<lambda>s2 _. m_forEach m c sc rest (Suc index) s2)
               | _ \<Rightarrow> Some (s1, Throw (TypeError ''catch is not a function''))))"

definition onSuccess_body :: "methods \<Rightarrow> nat \<Rightarrow> val \<Rightarrow> heap \<Rightarrow> res" where
  "onSuccess_body m p v s =
     (if state (promises s p) \<noteq> PENDING then ret s
      else case v of
          Promise q \<Rightarrow>
            seq (m_construct m (ThenResolver q (Some (OnSuccess p)) (Some (OnFailed p))) s)
              (\<lambda>s1 _. ret s1)
        | _ \<Rightarrow> m_runCallbacks m p ThenQ (settle p FULFILLED v s))"

text \<open>
  In \<open>#onFailed\<close> the branch for a promise reads \<open>value\<close>, which no enclosing scope
  declares: evaluating it throws a ReferenceError.
\<close>

definition onFailed_body :: "methods \<Rightarrow> nat \<Rightarrow> val \<Rightarrow> heap \<Rightarrow> res" where
  "onFailed_body m p e s =
     (if state (promises s p) \<noteq> PENDING then ret s
      else case e of
          Promise q \<Rightarrow> Some (s, Throw (ReferenceError ''value is not defined''))
        | _ \<Rightarrow>
            (let s1 = settle p REJECTED e s
             in if catchCbs (promises s1 p) = []
                then Some (s1, Throw (UncaughtPromiseError (Str ''Unhandle catch'')))
                else m_runCallbacks m p CatchQ s1))"

text \<open>The array is emptied from its end: \<open>pop\<close> takes the callback pushed last.\<close>

definition runCallbacks_body :: "methods \<Rightarrow> nat \<Rightarrow> queue \<Rightarrow> heap \<Rightarrow> res" where
  "runCallbacks_body m p q s =
     (if cbs q (promises s p) = [] then ret s
      else let cb = last (cbs q (promises s p));
               s1 = upd p (set_cbs q (butlast (cbs q (promises s p)))) s
           in seq (m_call m cb (pvalue (promises s1 p)) s1)
                (\<lambda>s2 _. m_runCallbacks m p q s2))"

definition call_body :: "methods \<Rightarrow> fn \<Rightarrow> val \<Rightarrow> heap \<Rightarrow> res" where
  "call_body m f x s =
     (case f of
        User i g \<Rightarrow> Some (s\<lparr>calls := calls s @ [(i, x)]\<rparr>, g x)
      | OnSuccess p \<Rightarrow> m_onSuccess m p x s
      | OnFailed p \<Rightarrow> m_onFailed m p x s
      | ThenCb thenCb p \<Rightarrow>
          (case thenCb of
             None \<Rightarrow> m_onSuccess m p x s
           | Some h \<Rightarrow>
               try_catch (seq (m_call m h x s) (\<lambda>s1 r. m_onSuccess m p r s1))
                         (\<lambda>s1 e. m_onFailed m p e s1))
      | CatchCb catchCb p \<Rightarrow>
          (case catchCb of
             None \<Rightarrow> m_onFailed m p x s
           | Some h \<Rightarrow>
               try_catch (seq (m_call m h x s) (\<lambda>s1 r. m_onSuccess m p r s1))
                         (\<lambda>s1 e. m_onFailed m p e s1))
      | FinallyThen cb \<Rightarrow> seq (m_call m cb Undefined s) (\<lambda>s1 _. Some (s1, Return x))
      | FinallyCatch cb \<Rightarrow> seq (m_call m cb Undefined s) (\<lambda>s1 _. Some (s1, Throw x))
      | AllThen sc index \<Rightarrow>
          (let s1 = upd_cell (cell sc) (increment \<circ> store index x) s
           in if complete sc s1 then m_onSuccess m (self sc) (Array (cell sc)) s1
              else ret s1)
      | AllCatch sc \<Rightarrow> m_onFailed m (self sc) x s
      | AllSettledThen sc index \<Rightarrow>
          (let s1 = upd_cell (cell sc) (store index (fulfilled_entry x)) s
           in if complete sc s1 then m_onSuccess m (self sc) (Array (cell sc)) s1
              else ret s1)
      | AllSettledCatch sc index \<Rightarrow>
          (let s1 = upd_cell (cell sc) (store index (rejected_entry x)) s
           in if complete sc s1 then m_onSuccess m (self sc) (Array (cell sc)) s1
              else ret s1)
      | AnyThen sc \<Rightarrow> m_onSuccess m (self sc) x s
      | AnyCatch sc index \<Rightarrow>
          Some (upd_cell (cell sc) increment s,
                Throw (ReferenceError ''value is not defined'')))"

primrec depth :: "nat \<Rightarrow> methods" where
  "depth 0 =
     \<lparr>m_construct = (\<lambda>r s. None), m_run_resolver = (\<lambda>r p s. None),
      m_exec = (\<lambda>body p s. None), m_forEach = (\<lambda>c sc ps index s. None),
      m_onSuccess = (\<lambda>p v s. None), m_onFailed = (\<lambda>p e s. None),
      m_runCallbacks = (\<lambda>p q s. None), m_call = (\<lambda>f x s. None)\<rparr>"
| "depth (Suc n) =
     \<lparr>m_construct = construct_body (depth n), m_run_resolver = run_resolver_body (depth n),
      m_exec = exec_body (depth n), m_forEach = forEach_body (depth n),
      m_onSuccess = onSuccess_body (depth n), m_onFailed = onFailed_body (depth n),
      m_runCallbacks = runCallbacks_body (depth n), m_call = call_body (depth n)\<rparr>"

definition construct :: "nat \<Rightarrow> resolver \<Rightarrow> heap \<Rightarrow> res" where
  "construct n = m_construct (depth n)"

definition onSuccess :: "nat \<Rightarrow> nat \<Rightarrow> val \<Rightarrow> heap \<Rightarrow> res" where
  "onSuccess n = m_onSuccess (depth n)"

definition onFailed :: "nat \<Rightarrow> nat \<Rightarrow> val \<Rightarrow> heap \<Rightarrow> res" where
  "onFailed n = m_onFailed (depth n)"

definition runCallbacks :: "nat \<Rightarrow> nat \<Rightarrow> queue \<Rightarrow> heap \<Rightarrow> res" where
  "runCallbacks n = m_runCallbacks (depth n)"

definition call :: "nat \<Rightarrow> fn \<Rightarrow> val \<Rightarrow> heap \<Rightarrow> res" where
  "call n = m_call (depth n)"

definition run_resolver :: "nat \<Rightarrow> resolver \<Rightarrow> nat \<Rightarrow> heap \<Rightarrow> res" where
  "run_resolver n = m_run_resolver (depth n)"

definition exec :: "nat \<Rightarrow> cmd list \<Rightarrow> nat \<Rightarrow> heap \<Rightarrow> res" where
  "exec n = m_exec (depth n)"

definition forEach ::
  "nat \<Rightarrow> combinator \<Rightarrow> scope \<Rightarrow> nat list \<Rightarrow> nat \<Rightarrow> heap \<Rightarrow> res" where
  "forEach n = m_forEach (depth n)"

subsection \<open>The public methods\<close>

definition then' :: "nat \<Rightarrow> nat \<Rightarrow> fn option \<Rightarrow> fn option \<Rightarrow> heap \<Rightarrow> res" where
  "then' n this thenCb catchCb s = construct n (ThenResolver this thenCb catchCb) s"

definition catch' :: "nat \<Rightarrow> nat \<Rightarrow> fn \<Rightarrow> heap \<Rightarrow> res" where
  "catch' n this cb s = then' n this None (Some cb) s"

definition finally' :: "nat \<Rightarrow> nat \<Rightarrow> fn \<Rightarrow> heap \<Rightarrow> res" where
  "finally' n this cb s = then' n this (Some (FinallyThen cb)) (Some (FinallyCatch cb)) s"

definition resolve :: "nat \<Rightarrow> val \<Rightarrow> heap \<Rightarrow> res" where
  "resolve n v s = construct n (UserResolver [CallResolve v]) s"

definition reject :: "nat \<Rightarrow> val \<Rightarrow> heap \<Rightarrow> res" where
  "reject n e s = construct n (UserResolver [CallReject e]) s"

definition all :: "nat \<Rightarrow> nat list \<Rightarrow> heap \<Rightarrow> res" where
  "all n promiseArray s = construct n (CombResolver CAll promiseArray) s"

definition allSettled :: "nat \<Rightarrow> nat list \<Rightarrow> heap \<Rightarrow> res" where
  "allSettled n promiseArray s = construct n (CombResolver CAllSettled promiseArray) s"

definition race :: "nat \<Rightarrow> nat list \<Rightarrow> heap \<Rightarrow> res" where
  "race n promiseArray s = construct n (CombResolver CRace promiseArray) s"

definition any :: "nat \<Rightarrow> nat list \<Rightarrow> heap \<Rightarrow> res" where
  "any n promiseArray s = construct n (CombResolver CAny promiseArray) s"

definition is_promise :: "val \<Rightarrow> bool" where
  "is_promise v = (case v of Promise q \<Rightarrow> True | _ \<Rightarrow> False)"

section \<open>Client programs\<close>

text \<open>
  What code outside the class can do with it: build a promise from a resolver, attach
  handlers, call a combinator, and call the \<open>resolve\<close> or \<open>reject\<close> function that the
  resolver of a promise it built has kept. A program is a list of such actions, each
  run to its end; an exception that reaches the top level ends that action only.
\<close>

datatype action =
    New "cmd list"
  | Then nat "fn option" "fn option"
  | Catch nat fn
  | Finally nat fn
  | Fulfil nat val
  | Reject nat val
  | Combine combinator "nat list"

definition perform :: "nat \<Rightarrow> action \<Rightarrow> heap \<Rightarrow> res" where
  "perform n a s =
     (case a of
        New body \<Rightarrow> construct n (UserResolver body) s
      | Then p thenCb catchCb \<Rightarrow> then' n p thenCb catchCb s
      | Catch p cb \<Rightarrow> catch' n p cb s
      | Finally p cb \<Rightarrow> finally' n p cb s
      | Fulfil p v \<Rightarrow> onSuccess n p v s
      | Reject p e \<Rightarrow> onFailed n p e s
      | Combine c ps \<Rightarrow> construct n (CombResolver c ps) s)"

fun run :: "nat \<Rightarrow> action list \<Rightarrow> heap \<Rightarrow> heap option" where
  "run n [] s = Some s"
| "run n (a # rest) s =
     (case perform n a s of None \<Rightarrow> None | Some (s1, _) \<Rightarrow> run n rest s1)"

definition thrown :: "res \<Rightarrow> val option" where
  "thrown r = (case r of Some (s, Throw e) \<Rightarrow> Some e | _ \<Rightarrow> None)"

definition state_of :: "nat \<Rightarrow> heap option \<Rightarrow> pstate option" where
  "state_of p r = map_option (\<lambda>s. state (promises s p)) r"

definition value_of :: "nat \<Rightarrow> heap option \<Rightarrow> val option" where
  "value_of p r = map_option (\<lambda>s. pvalue (promises s p)) r"

definition array_of :: "nat \<Rightarrow> heap option \<Rightarrow> val option list option" where
  "array_of k r = map_option (\<lambda>s. results (cells s k)) r"

definition calls_of :: "heap option \<Rightarrow> (nat \<times> val) list option" where
  "calls_of r = map_option calls r"

text \<open>
  \<open>F.then(f).then(g).catch(h)\<close>, where \<open>b\<close> is the next free address: \<open>F.then(f)\<close> is
  the promise at \<open>b\<close>, \<open>F.then(f).then(g)\<close> the one at \<open>b + 1\<close>, and the whole chain the
  one at \<open>b + 2\<close>.
\<close>

definition chain_at :: "nat \<Rightarrow> nat \<Rightarrow> fn \<Rightarrow> fn \<Rightarrow> fn \<Rightarrow> action list" where
  "chain_at F b f g h = [Then F (Some f) None, Then b (Some g) None, Catch (Suc b) h]"

definition rejected_with :: "val \<Rightarrow> heap \<Rightarrow> nat \<Rightarrow> bool" where
  "rejected_with e s p = (state (promises s p) = REJECTED \<and> pvalue (promises s p) = e)"

text \<open>Two heaps for examples: promise 0 fulfilled with 1; promises 0 and 1 pending.\<close>

definition fulfilled_heap :: heap where
  "fulfilled_heap = settle 0 FULFILLED (Num 1) (empty_heap\<lparr>next_promise := 1\<rparr>)"

definition pending_heap :: heap where
  "pending_heap = empty_heap\<lparr>next_promise := 2\<rparr>"

text \<open>
  \<open>le_res a b\<close>: a larger bound on the depth of calls changes a result only from
  \<open>None\<close> to an answer.
\<close>

definition le_res :: "res \<Rightarrow> res \<Rightarrow> bool" where
  "le_res a b = (a = None \<or> a = b)"

definition mono_at :: "nat \<Rightarrow> bool" where
  "mono_at n =
    ((\<forall>r s. le_res (construct n r s) (construct (Suc n) r s))
     \<and> (\<forall>r p s. le_res (run_resolver n r p s) (run_resolver (Suc n) r p s))
     \<and> (\<forall>b p s. le_res (exec n b p s) (exec (Suc n) b p s))
     \<and> (\<forall>c sc ps i s. le_res (forEach n c sc ps i s) (forEach (Suc n) c sc ps i s))
     \<and> (\<forall>p v s. le_res (onSuccess n p v s) (onSuccess (Suc n) p v s))
     \<and> (\<forall>p v s. le_res (onFailed n p v s) (onFailed (Suc n) p v s))
     \<and> (\<forall>p q s. le_res (runCallbacks n p q s) (runCallbacks (Suc n) p q s))
     \<and> (\<forall>f x s. le_res (call n f x s) (call (Suc n) f x s)))"

section \<open>Who can settle a promise\<close>

text \<open>
  \<open>#onSuccess\<close> and \<open>#onFailed\<close> are private: code outside the class reaches them only
  through the two functions the resolver of that promise received. \<open>targets p f\<close> says
  that calling the function \<open>f\<close> can call an entry point of promise \<open>p\<close> directly:
  \<open>f\<close> is one of them, or a closure that has captured one.
\<close>

fun targets :: "nat \<Rightarrow> fn \<Rightarrow> bool" where
  "targets p (User i g) = False"
| "targets p (OnSuccess q) = (q = p)"
| "targets p (OnFailed q) = (q = p)"
| "targets p (ThenCb None q) = (q = p)"
| "targets p (ThenCb (Some f) q) = (q = p \<or> targets p f)"
| "targets p (CatchCb None q) = (q = p)"
| "targets p (CatchCb (Some f) q) = (q = p \<or> targets p f)"
| "targets p (FinallyThen cb) = targets p cb"
| "targets p (FinallyCatch cb) = targets p cb"
| "targets p (AllThen sc index) = (self sc = p)"
| "targets p (AllCatch sc) = (self sc = p)"
| "targets p (AllSettledThen sc index) = (self sc = p)"
| "targets p (AllSettledCatch sc index) = (self sc = p)"
| "targets p (AnyThen sc) = (self sc = p)"
| "targets p (AnyCatch sc index) = (self sc = p)"

definition targets_opt :: "nat \<Rightarrow> fn option \<Rightarrow> bool" where
  "targets_opt p h = (case h of None \<Rightarrow> False | Some f \<Rightarrow> targets p f)"

definition targets_resolver :: "nat \<Rightarrow> resolver \<Rightarrow> bool" where
  "targets_resolver p r =
     (case r of ThenResolver this thenCb catchCb \<Rightarrow> targets_opt p thenCb \<or> targets_opt p catchCb
      | _ \<Rightarrow> False)"

text \<open>An action uses the entry points of \<open>p\<close> when it calls one or passes one on.\<close>

definition uses :: "nat \<Rightarrow> action \<Rightarrow> bool" where
  "uses p a =
     (case a of
        New body \<Rightarrow> False
      | Then q thenCb catchCb \<Rightarrow> targets_opt p thenCb \<or> targets_opt p catchCb
      | Catch q cb \<Rightarrow> targets p cb
      | Finally q cb \<Rightarrow> targets p cb
      | Fulfil q v \<Rightarrow> q = p
      | Reject q e \<Rightarrow> q = p
      | Combine c ps \<Rightarrow> False)"

text \<open>
  No callback waiting in the heap can settle \<open>p\<close>; and \<open>p\<close> is allocated, pending and
  out of reach of every callback.
\<close>

definition unreferenced :: "nat \<Rightarrow> heap \<Rightarrow> bool" where
  "unreferenced p s =
     (\<forall>q. \<forall>f \<in> set (thenCbs (promises s q)) \<union> set (catchCbs (promises s q)). \<not> targets p f)"

definition untouchable :: "nat \<Rightarrow> heap \<Rightarrow> bool" where
  "untouchable p s =
     (state (promises s p) = PENDING \<and> p < next_promise s \<and> unreferenced p s)"

text \<open>What each method preserves, for calls nested at most \<open>n\<close> deep.\<close>

definition keeps :: "nat \<Rightarrow> res \<Rightarrow> bool" where
  "keeps p r = (case r of None \<Rightarrow> True | Some (s, _) \<Rightarrow> untouchable p s)"

definition keeps_at :: "nat \<Rightarrow> nat \<Rightarrow> bool" where
  "keeps_at p n =
    ((\<forall>r s. untouchable p s \<and> \<not> targets_resolver p r \<longrightarrow> keeps p (construct n r s))
     \<and> (\<forall>r q s. untouchable p s \<and> \<not> targets_resolver p r \<and> q \<noteq> p
            \<longrightarrow> keeps p (run_resolver n r q s))
     \<and> (\<forall>b q s. untouchable p s \<and> q \<noteq> p \<longrightarrow> keeps p (exec n b q s))
     \<and> (\<forall>c sc ps i s. untouchable p s \<and> self sc \<noteq> p \<longrightarrow> keeps p (forEach n c sc ps i s))
     \<and> (\<forall>q v s. untouchable p s \<and> q \<noteq> p \<longrightarrow> keeps p (onSuccess n q v s))
     \<and> (\<forall>q v s. untouchable p s \<and> q \<noteq> p \<longrightarrow> keeps p (onFailed n q v s))
     \<and> (\<forall>q w s. untouchable p s \<longrightarrow> keeps p (runCallbacks n q w s))
     \<and> (\<forall>f x s. untouchable p s \<and> \<not> targets p f \<longrightarrow> keeps p (call n f x s)))"

text \<open>Actions on a promise at address 2 by code that does not hold its entry points.\<close>

definition later_actions :: "action list" where
  "later_actions = [Then 2 (Some (User 1 Return)) None, Fulfil 0 (Promise 2), Fulfil 1 (Num 1),
                    Combine CRace [2, 1], Catch 2 (OnSuccess 0)]"

section \<open>Adoption\<close>

text \<open>
  A chain of promises \<open>[F, G, H, \<dots>]\<close> in which each one is resolved with the next:
  \<open>adopt\<close> is the calls that set it up, outermost first, and \<open>settle_with\<close> settles a
  promise through its own entry point, with a value or with an error.
\<close>

fun adopt :: "nat list \<Rightarrow> action list" where
  "adopt (f # g # rest) = Fulfil f (Promise g) # adopt (g # rest)"
| "adopt fs = []"

fun settle_with :: "nat \<Rightarrow> outcome \<Rightarrow> action" where
  "settle_with p (Return v) = Fulfil p v"
| "settle_with p (Throw e) = Reject p e"

fun settled_state :: "outcome \<Rightarrow> pstate" where
  "settled_state (Return v) = FULFILLED"
| "settled_state (Throw e) = REJECTED"

fun payload :: "outcome \<Rightarrow> val" where
  "payload (Return v) = v"
| "payload (Throw e) = e"

text \<open>
  The heap once the chain is set up, innermost promise first: \<open>#onSuccess\<close> of \<open>h\<close>,
  called with the promise \<open>g\<close>, did \<open>g.then(h.#onSuccess, h.#onFailed)\<close>, which left
  one wrapper in each array of \<open>g\<close> and returned a new promise \<open>w\<close>. The outermost
  promise has no callback of its own.
\<close>

fun adopting :: "heap \<Rightarrow> nat list \<Rightarrow> nat list \<Rightarrow> bool" where
  "adopting s [] ws = False"
| "adopting s [g] ws =
     (ws = [] \<and> state (promises s g) = PENDING
      \<and> thenCbs (promises s g) = [] \<and> catchCbs (promises s g) = [])"
| "adopting s (g # h # rest) [] = False"
| "adopting s (g # h # rest) (w # ws) =
     (state (promises s g) = PENDING
      \<and> thenCbs (promises s g) = [ThenCb (Some (OnSuccess h)) w]
      \<and> catchCbs (promises s g) = [CatchCb (Some (OnFailed h)) w]
      \<and> promises s w = new_promise
      \<and> g \<notin> set (h # rest) \<and> g \<notin> set (w # ws) \<and> w \<notin> set (h # rest) \<and> w \<notin> set ws
      \<and> adopting s (h # rest) ws)"

text \<open>What \<open>f.#onSuccess(g)\<close> does to the heap when \<open>f\<close> and \<open>g\<close> are both pending.\<close>

definition link :: "nat \<Rightarrow> nat \<Rightarrow> heap \<Rightarrow> heap" where
  "link f g s =
     push g CatchQ (CatchCb (Some (OnFailed f)) (next_promise s))
       (push g ThenQ (ThenCb (Some (OnSuccess f)) (next_promise s))
          (s\<lparr>promises := (promises s)(next_promise s := new_promise),
             next_promise := Suc (next_promise s)\<rparr>))"

text \<open>A settled promise whose callbacks for its state have all been run.\<close>

definition drained :: "heap \<Rightarrow> nat \<Rightarrow> bool" where
  "drained s g =
     (case state (promises s g) of
        PENDING \<Rightarrow> False
      | FULFILLED \<Rightarrow> thenCbs (promises s g) = []
      | REJECTED \<Rightarrow> catchCbs (promises s g) = [])"

text \<open>Promises 0, 1 and 2 pending; and promises 0 and 1 pending, 2 rejected.\<close>

definition three_pending :: heap where
  "three_pending = empty_heap\<lparr>next_promise := 3\<rparr>"

definition two_pending_one_rejected :: heap where
  "two_pending_one_rejected = settle 2 REJECTED (Str ''boom'') three_pending"

text \<open>The heap after the innermost promise of a chain has been fulfilled, or rejected.\<close>

definition fulfil_chain :: "val \<Rightarrow> nat list \<Rightarrow> nat list \<Rightarrow> heap \<Rightarrow> heap" where
  "fulfil_chain v gs ws s =
     s\<lparr>promises := (\<lambda>a.
         if a \<in> set gs then (promises s a)\<lparr>state := FULFILLED, pvalue := v, thenCbs := []\<rparr>
         else if a \<in> set ws then new_promise\<lparr>state := FULFILLED\<rparr>
         else promises s a)\<rparr>"

definition reject_chain :: "val \<Rightarrow> nat list \<Rightarrow> nat list \<Rightarrow> heap \<Rightarrow> heap" where
  "reject_chain e gs ws s =
     s\<lparr>promises := (\<lambda>a.
         if a \<in> set gs then (promises s a)\<lparr>state := REJECTED, pvalue := e, catchCbs := []\<rparr>
         else if a \<in> set ws
           then new_promise\<lparr>state := REJECTED,
                            pvalue := UncaughtPromiseError (Str ''Unhandle catch'')\<rparr>
         else promises s a)\<rparr>"

section \<open>The inputs of \<open>all\<close>\<close>

text \<open>A pending promise on which nothing is registered.\<close>

definition fresh :: "heap \<Rightarrow> nat \<Rightarrow> bool" where
  "fresh s p = (state (promises s p) = PENDING \<and> thenCbs (promises s p) = []
                \<and> catchCbs (promises s p) = [])"

text \<open>What \<open>p.then(thenCb, catchCb)\<close> does to the heap when \<open>p\<close> is pending.\<close>

definition attach :: "nat \<Rightarrow> fn option \<Rightarrow> fn option \<Rightarrow> heap \<Rightarrow> heap" where
  "attach p thenCb catchCb s =
     push p CatchQ (CatchCb catchCb (next_promise s))
       (push p ThenQ (ThenCb thenCb (next_promise s))
          (s\<lparr>promises := (promises s)(next_promise s := new_promise),
             next_promise := Suc (next_promise s)\<rparr>))"

text \<open>
  \<open>all\<close> allocates its own promise at \<open>o'\<close> first; input \<open>i\<close> then gets the promise
  returned by \<open>promise.then(\<dots>)\<close> at \<open>slot1 o' i\<close> and the one returned by
  \<open>.catch(\<dots>)\<close> at \<open>slot2 o' i\<close>.
\<close>

definition slot1 :: "nat \<Rightarrow> nat \<Rightarrow> nat" where
  "slot1 o' i = Suc (o' + 2 * i)"

definition slot2 :: "nat \<Rightarrow> nat \<Rightarrow> nat" where
  "slot2 o' i = Suc (Suc (o' + 2 * i))"

text \<open>
  Input \<open>a\<close>, at index \<open>i\<close>, is registered and nothing has run yet: its two wrappers,
  those of the promise \<open>b\<close> that \<open>then\<close> returned, and the promise \<open>c\<close> that \<open>catch\<close>
  returned.
\<close>

definition waiting :: "heap \<Rightarrow> scope \<Rightarrow> nat \<Rightarrow> nat \<Rightarrow> nat \<Rightarrow> nat \<Rightarrow> bool" where
  "waiting s sc i a b c =
     (state (promises s a) = PENDING
      \<and> thenCbs (promises s a) = [ThenCb (Some (AllThen sc i)) b]
      \<and> catchCbs (promises s a) = [CatchCb None b]
      \<and> state (promises s b) = PENDING
      \<and> thenCbs (promises s b) = [ThenCb None c]
      \<and> catchCbs (promises s b) = [CatchCb (Some (AllCatch sc)) c]
      \<and> state (promises s c) = PENDING
      \<and> thenCbs (promises s c) = []
      \<and> catchCbs (promises s c) = [])"

text \<open>The loop of \<open>all\<close> has registered the inputs below index \<open>j\<close>.\<close>

definition registered :: "nat list \<Rightarrow> scope \<Rightarrow> nat \<Rightarrow> heap \<Rightarrow> bool" where
  "registered ps sc j s =
     ((\<forall>i < j. waiting s sc i (ps ! i) (slot1 (self sc) i) (slot2 (self sc) i))
      \<and> (\<forall>i. j \<le> i \<and> i < length ps \<longrightarrow> fresh s (ps ! i))
      \<and> fresh s (self sc)
      \<and> cells s (cell sc) = new_cell
      \<and> next_promise s = Suc (self sc + 2 * j))"

text \<open>
  The inputs settle, in any order: a list of pairs of an index into \<open>promiseArray\<close> and
  the way that input settles. \<open>first_error\<close> is the error of the first rejection,
  \<open>fulfilled_count\<close> the number of fulfilments.
\<close>

definition settlements :: "nat list \<Rightarrow> (nat \<times> outcome) list \<Rightarrow> action list" where
  "settlements ps es = map (\<lambda>(i, out). settle_with (ps ! i) out) es"

fun first_error :: "(nat \<times> outcome) list \<Rightarrow> val option" where
  "first_error [] = None"
| "first_error ((i, Return v) # es) = first_error es"
| "first_error ((i, Throw e) # es) = Some e"

fun fulfilled_count :: "(nat \<times> outcome) list \<Rightarrow> nat" where
  "fulfilled_count [] = 0"
| "fulfilled_count ((i, Return v) # es) = Suc (fulfilled_count es)"
| "fulfilled_count ((i, Throw e) # es) = fulfilled_count es"

text \<open>
  The heap after a registered input is fulfilled with \<open>v\<close>, and after it is rejected
  with \<open>e\<close>.
\<close>

definition after_fulfil :: "scope \<Rightarrow> nat \<Rightarrow> nat \<Rightarrow> nat \<Rightarrow> nat \<Rightarrow> val \<Rightarrow> heap \<Rightarrow> heap" where
  "after_fulfil sc i a b c v s =
     (let s1 = upd_cell (cell sc) (increment \<circ> store i v)
                 (upd a (set_cbs ThenQ []) (settle a FULFILLED v s));
          s2 = (if complete sc s1 \<and> state (promises s1 (self sc)) = PENDING
                then settle (self sc) FULFILLED (Array (cell sc)) s1 else s1)
      in settle c FULFILLED Undefined
           (upd b (set_cbs ThenQ []) (settle b FULFILLED Undefined s2)))"

definition after_reject :: "scope \<Rightarrow> nat \<Rightarrow> nat \<Rightarrow> nat \<Rightarrow> val \<Rightarrow> heap \<Rightarrow> heap" where
  "after_reject sc a b c e s =
     (let s1 = upd b (set_cbs CatchQ []) (settle b REJECTED e
                 (upd a (set_cbs CatchQ []) (settle a REJECTED e s)))
      in if state (promises s1 (self sc)) = PENDING
         then settle c REJECTED (UncaughtPromiseError (Str ''Unhandle catch''))
                (settle (self sc) REJECTED e s1)
         else settle c FULFILLED Undefined s1)"

text \<open>
  What holds of the heap after the settlements \<open>D\<close>: the other inputs are still
  registered, \<open>resultCount\<close> and \<open>results\<close> record the fulfilments, and the promise that
  \<open>all\<close> returned is rejected with the first error, or fulfilled with the array when
  every input is in, or pending with no callback.
\<close>

definition all_inv :: "nat list \<Rightarrow> scope \<Rightarrow> (nat \<times> outcome) list \<Rightarrow> heap \<Rightarrow> bool" where
  "all_inv ps sc D s =
     ((\<forall>i < length ps. i \<notin> fst ` set D \<longrightarrow>
          waiting s sc i (ps ! i) (slot1 (self sc) i) (slot2 (self sc) i))
      \<and> resultCount (cells s (cell sc)) = fulfilled_count D
      \<and> (\<forall>i v. (i, Return v) \<in> set D \<longrightarrow>
            i < length (results (cells s (cell sc))) \<and> results (cells s (cell sc)) ! i = Some v)
      \<and> length (results (cells s (cell sc))) \<le> length ps
      \<and> (case first_error D of
            Some e \<Rightarrow> state (promises s (self sc)) = REJECTED \<and> pvalue (promises s (self sc)) = e
          | None \<Rightarrow>
              if length D = length ps
              then state (promises s (self sc)) = FULFILLED
                   \<and> pvalue (promises s (self sc)) = Array (cell sc)
              else fresh s (self sc)))"

text \<open>Promise \<open>p\<close> has settled the way \<open>out\<close> says.\<close>

definition settled_like :: "outcome \<Rightarrow> heap \<Rightarrow> nat \<Rightarrow> bool" where
  "settled_like out s p =
     (state (promises s p) = settled_state out \<and> pvalue (promises s p) = payload out)"

text \<open>
  For the invariant that a settled promise is settled for good: the promise \<open>p\<close> exists
  and holds the state \<open>st\<close> and the value \<open>v\<close>; a result keeps it; and every method, at
  one depth, keeps it.
\<close>

definition settled_as :: "nat \<Rightarrow> pstate \<Rightarrow> val \<Rightarrow> heap \<Rightarrow> bool" where
  "settled_as p st v s =
     (st \<noteq> PENDING \<and> p < next_promise s \<and> state (promises s p) = st
      \<and> pvalue (promises s p) = v)"

definition stays :: "nat \<Rightarrow> pstate \<Rightarrow> val \<Rightarrow> res \<Rightarrow> bool" where
  "stays p st v r = (case r of None \<Rightarrow> True | Some (s, _) \<Rightarrow> settled_as p st v s)"

definition stays_at :: "nat \<Rightarrow> pstate \<Rightarrow> val \<Rightarrow> nat \<Rightarrow> bool" where
  "stays_at p st v n =
    ((\<forall>r s. settled_as p st v s \<longrightarrow> stays p st v (construct n r s))
     \<and> (\<forall>r q s. settled_as p st v s \<longrightarrow> stays p st v (run_resolver n r q s))
     \<and> (\<forall>b q s. settled_as p st v s \<longrightarrow> stays p st v (exec n b q s))
     \<and> (\<forall>c sc ps i s. settled_as p st v s \<longrightarrow> stays p st v (forEach n c sc ps i s))
     \<and> (\<forall>q x s. settled_as p st v s \<longrightarrow> stays p st v (onSuccess n q x s))
     \<and> (\<forall>q x s. settled_as p st v s \<longrightarrow> stays p st v (onFailed n q x s))
     \<and> (\<forall>q w s. settled_as p st v s \<longrightarrow> stays p st v (runCallbacks n q w s))
     \<and> (\<forall>f x s. settled_as p st v s \<longrightarrow> stays p st v (call n f x s)))"

section \<open>The recursion equations\<close>

lemmas method_defs =
  construct_def run_resolver_def exec_def forEach_def onSuccess_def onFailed_def
  runCallbacks_def call_def

lemma depth_0 [simp, code]:
  "construct 0 r s = None" "run_resolver 0 r p s = None" "exec 0 body p s = None"
  "forEach 0 c sc ps index s = None" "onSuccess 0 p v s = None" "onFailed 0 p e s = None"
  "runCallbacks 0 p q s = None" "call 0 f x s = None"
  by (simp_all add: method_defs)

lemma construct_Suc [code]:
  "construct (Suc n) r s =
     (let p = next_promise s;
          s1 = s\<lparr>promises := (promises s)(p := new_promise), next_promise := Suc p\<rparr>
      in seq (try_catch (run_resolver n r p s1) (\<lambda>s2 e. onFailed n p e s2))
             (\<lambda>s3 _. Some (s3, Return (Promise p))))"
  unfolding method_defs by (simp add: construct_body_def)

lemma run_resolver_Suc [code]:
  "run_resolver (Suc n) (ThenResolver this thenCb catchCb) p s =
     (let s1 = push this ThenQ (ThenCb thenCb p) s;
          s2 = push this CatchQ (CatchCb catchCb p) s1
      in if state (promises s2 this) = FULFILLED then runCallbacks n this ThenQ s2
         else if state (promises s2 this) = REJECTED then runCallbacks n this CatchQ s2
         else ret s2)"
  "run_resolver (Suc n) (CombResolver c promiseArray) p s =
     forEach n c \<lparr>cell = next_cell s, len = length promiseArray, self = p\<rparr>
       promiseArray 0 (declare_results c s)"
  "run_resolver (Suc n) (UserResolver body) p s = exec n body p s"
  unfolding method_defs by (simp_all add: run_resolver_body_def)

lemma exec_Suc [code]:
  "exec (Suc n) [] p s = ret s"
  "exec (Suc n) (CallResolve v # rest) p s =
     seq (onSuccess n p v s) (\<lambda>s1 _. exec n rest p s1)"
  "exec (Suc n) (CallReject e # rest) p s =
     seq (onFailed n p e s) (\<lambda>s1 _. exec n rest p s1)"
  "exec (Suc n) (ThrowValue e # rest) p s = Some (s, Throw e)"
  unfolding method_defs by (simp_all add: exec_body_def)

lemma forEach_Suc [code]:
  "forEach (Suc n) c sc [] index s = ret s"
  "forEach (Suc n) c sc (promise # rest) index s =
     seq (construct n (ThenResolver promise (Some (thenFn c sc index)) None) (visit c sc s))
       (\<lambda>s1 r. case r of
            Promise p1 \<Rightarrow>
              seq (construct n (ThenResolver p1 None (Some (catchFn c sc index))) s1)
                (\<lambda>s2 _. forEach n c sc rest (Suc index) s2)
          | _ \<Rightarrow> Some (s1, Throw (TypeError ''catch is not a function'')))"
  unfolding method_defs by (simp_all add: forEach_body_def)

lemma onSuccess_Suc [code]:
  "onSuccess (Suc n) p v s =
     (if state (promises s p) \<noteq> PENDING then ret s
      else case v of
          Promise q \<Rightarrow>
            seq (construct n (ThenResolver q (Some (OnSuccess p)) (Some (OnFailed p))) s)
              (\<lambda>s1 _. ret s1)
        | _ \<Rightarrow> runCallbacks n p ThenQ (settle p FULFILLED v s))"
  unfolding method_defs by (simp add: onSuccess_body_def)

lemma onFailed_Suc [code]:
  "onFailed (Suc n) p e s =
     (if state (promises s p) \<noteq> PENDING then ret s
      else case e of
          Promise q \<Rightarrow> Some (s, Throw (ReferenceError ''value is not defined''))
        | _ \<Rightarrow>
            (let s1 = settle p REJECTED e s
             in if catchCbs (promises s1 p) = []
                then Some (s1, Throw (UncaughtPromiseError (Str ''Unhandle catch'')))
                else runCallbacks n p CatchQ s1))"
  unfolding method_defs by (simp add: onFailed_body_def)

lemma runCallbacks_Suc [code]:
  "runCallbacks (Suc n) p q s =
     (if cbs q (promises s p) = [] then ret s
      else let cb = last (cbs q (promises s p));
               s1 = upd p (set_cbs q (butlast (cbs q (promises s p)))) s
           in seq (call n cb (pvalue (promises s1 p)) s1) (\<lambda>s2 _. runCallbacks n p q s2))"
  unfolding method_defs by (simp add: runCallbacks_body_def)

lemma call_Suc [code]:
  "call (Suc n) (User i g) x s = Some (s\<lparr>calls := calls s @ [(i, x)]\<rparr>, g x)"
  "call (Suc n) (OnSuccess p) x s = onSuccess n p x s"
  "call (Suc n) (OnFailed p) x s = onFailed n p x s"
  "call (Suc n) (ThenCb None p) x s = onSuccess n p x s"
  "call (Suc n) (ThenCb (Some h) p) x s =
     try_catch (seq (call n h x s) (\<lambda>s1 r. onSuccess n p r s1)) (\<lambda>s1 e. onFailed n p e s1)"
  "call (Suc n) (CatchCb None p) x s = onFailed n p x s"
  "call (Suc n) (CatchCb (Some h) p) x s =
     try_catch (seq (call n h x s) (\<lambda>s1 r. onSuccess n p r s1)) (\<lambda>s1 e. onFailed n p e s1)"
  "call (Suc n) (FinallyThen cb) x s =
     seq (call n cb Undefined s) (\<lambda>s1 _. Some (s1, Return x))"
  "call (Suc n) (FinallyCatch cb) x s =
     seq (call n cb Undefined s) (\<lambda>s1 _. Some (s1, Throw x))"
  "call (Suc n) (AllThen sc index) x s =
     (let s1 = upd_cell (cell sc) (increment \<circ> store index x) s
      in if complete sc s1 then onSuccess n (self sc) (Array (cell sc)) s1 else ret s1)"
  "call (Suc n) (AllCatch sc) x s = onFailed n (self sc) x s"
  "call (Suc n) (AllSettledThen sc index) x s =
     (let s1 = upd_cell (cell sc) (store index (fulfilled_entry x)) s
      in if complete sc s1 then onSuccess n (self sc) (Array (cell sc)) s1 else ret s1)"
  "call (Suc n) (AllSettledCatch sc index) x s =
     (let s1 = upd_cell (cell sc) (store index (rejected_entry x)) s
      in if complete sc s1 then onSuccess n (self sc) (Array (cell sc)) s1 else ret s1)"
  "call (Suc n) (AnyThen sc) x s = onSuccess n (self sc) x s"
  "call (Suc n) (AnyCatch sc index) x s =
     Some (upd_cell (cell sc) increment s, Throw (ReferenceError ''value is not defined''))"
  unfolding method_defs by (simp_all add: call_body_def)

lemma onSuccess_plain:
  "state (promises s p) = PENDING \<Longrightarrow> \<not> is_promise v \<Longrightarrow>
   onSuccess (Suc n) p v s = runCallbacks n p ThenQ (settle p FULFILLED v s)"
  by (cases v) (simp_all add: onSuccess_Suc is_promise_def)

lemma onFailed_plain:
  "state (promises s p) = PENDING \<Longrightarrow> \<not> is_promise e \<Longrightarrow>
   onFailed (Suc n) p e s =
     (if catchCbs (promises s p) = []
      then Some (settle p REJECTED e s, Throw (UncaughtPromiseError (Str ''Unhandle catch'')))
      else runCallbacks n p CatchQ (settle p REJECTED e s))"
  by (cases e) (simp_all add: onFailed_Suc is_promise_def settle_def upd_def)

text \<open>
  For running the methods on given inputs: the equations at a numeral bound, and
  \<open>seq\<close> and \<open>try_catch\<close> are not entered before their first argument is a result.
\<close>

lemmas at_numeral =
  construct_Suc [where n = "pred_numeral k", folded numeral_eq_Suc]
  run_resolver_Suc [where n = "pred_numeral k", folded numeral_eq_Suc]
  exec_Suc [where n = "pred_numeral k", folded numeral_eq_Suc]
  forEach_Suc [where n = "pred_numeral k", folded numeral_eq_Suc]
  onSuccess_Suc [where n = "pred_numeral k", folded numeral_eq_Suc]
  onFailed_Suc [where n = "pred_numeral k", folded numeral_eq_Suc]
  runCallbacks_Suc [where n = "pred_numeral k", folded numeral_eq_Suc]
  call_Suc [where n = "pred_numeral k", folded numeral_eq_Suc]
  for k

lemmas heap_simps =
  ret_def push_def upd_def settle_def cbs_def set_cbs_def upd_cell_def store_def
  increment_def assign_def complete_def thenFn_def catchFn_def visit_def
  declare_results_def new_promise_def new_cell_def empty_heap_def Let_def

lemmas client_simps =
  perform_def then'_def catch'_def finally'_def state_of_def value_of_def array_of_def
  calls_of_def thrown_def pending_heap_def fulfilled_heap_def

lemmas exec_simps =
  at_numeral construct_Suc run_resolver_Suc exec_Suc forEach_Suc onSuccess_Suc
  onFailed_Suc runCallbacks_Suc call_Suc heap_simps client_simps

lemma seq_weak_cong [cong]: "m = m' \<Longrightarrow> seq m k = seq m' k"
  by simp

lemma try_catch_weak_cong [cong]: "m = m' \<Longrightarrow> try_catch m k = try_catch m' k"
  by simp

section \<open>A larger bound never changes an answer\<close>

lemma le_res_refl [simp, intro!]: "le_res a a"
  by (simp add: le_res_def)

lemma le_res_None [simp, intro!]: "le_res None a"
  by (simp add: le_res_def)

lemma le_res_seq [intro!]:
  "le_res a b \<Longrightarrow> (\<And>s v. le_res (k s v) (k' s v)) \<Longrightarrow> le_res (seq a k) (seq b k')"
  by (cases "(a, k)" rule: seq.cases) (fastforce simp: le_res_def)+

lemma le_res_try [intro!]:
  "le_res a b \<Longrightarrow> (\<And>s v. le_res (k s v) (k' s v)) \<Longrightarrow>
   le_res (try_catch a k) (try_catch b k')"
  by (cases "(a, k)" rule: try_catch.cases) (fastforce simp: le_res_def)+

lemma mono_at_Suc:
  assumes "mono_at n"
  shows "mono_at (Suc n)"
proof -
  note IH = assms[unfolded mono_at_def]
  have c: "le_res (construct (Suc n) r s) (construct (Suc (Suc n)) r s)" for r s
    unfolding construct_Suc[of "Suc n"] construct_Suc[of n] Let_def
    using IH by (intro le_res_seq le_res_try) auto
  have rr: "le_res (run_resolver (Suc n) r p s) (run_resolver (Suc (Suc n)) r p s)"
    for r p s
    using IH by (cases r) (auto simp: run_resolver_Suc Let_def)
  have ex: "le_res (exec (Suc n) b p s) (exec (Suc (Suc n)) b p s)" for b p s
  proof (cases b)
    case Nil
    then show ?thesis by (simp add: exec_Suc)
  next
    case (Cons a rest)
    then show ?thesis using IH by (cases a) (auto simp: exec_Suc)
  qed
  have fe: "le_res (forEach (Suc n) c sc ps i s) (forEach (Suc (Suc n)) c sc ps i s)"
    for c sc ps i s
    using IH by (cases ps) (auto simp: forEach_Suc split: val.splits)
  have os: "le_res (onSuccess (Suc n) p v s) (onSuccess (Suc (Suc n)) p v s)" for p v s
    using IH by (cases v) (auto simp: onSuccess_Suc)
  have ofl: "le_res (onFailed (Suc n) p v s) (onFailed (Suc (Suc n)) p v s)" for p v s
    using IH by (cases v) (auto simp: onFailed_Suc Let_def)
  have rc: "le_res (runCallbacks (Suc n) p q s) (runCallbacks (Suc (Suc n)) p q s)"
    for p q s
    using IH by (auto simp: runCallbacks_Suc Let_def)
  have cl: "le_res (call (Suc n) f x s) (call (Suc (Suc n)) f x s)" for f x s
  proof (cases f)
    case (ThenCb h p)
    then show ?thesis using IH by (cases h) (auto simp: call_Suc)
  next
    case (CatchCb h p)
    then show ?thesis using IH by (cases h) (auto simp: call_Suc)
  qed (use IH in \<open>auto simp: call_Suc Let_def\<close>)
  show ?thesis
    unfolding mono_at_def using c rr ex fe os ofl rc cl by blast
qed

lemma mono_at_all: "mono_at n"
  by (induction n) (simp_all add: mono_at_def mono_at_Suc[unfolded mono_at_def])

lemma le_res_trans: "le_res a b \<Longrightarrow> le_res b c \<Longrightarrow> le_res a c"
  by (auto simp: le_res_def)

lemma onSuccess_mono: "n \<le> m \<Longrightarrow> le_res (onSuccess n p v s) (onSuccess m p v s)"
proof (induction m)
  case 0
  then show ?case by simp
next
  case (Suc m)
  show ?case
  proof (cases "n = Suc m")
    case True
    then show ?thesis by simp
  next
    case False
    with Suc have "le_res (onSuccess n p v s) (onSuccess m p v s)" by simp
    moreover have "le_res (onSuccess m p v s) (onSuccess (Suc m) p v s)"
      using mono_at_all[of m] by (simp add: mono_at_def)
    ultimately show ?thesis by (rule le_res_trans)
  qed
qed

lemma onFailed_mono: "n \<le> m \<Longrightarrow> le_res (onFailed n p v s) (onFailed m p v s)"
proof (induction m)
  case 0
  then show ?case by simp
next
  case (Suc m)
  show ?case
  proof (cases "n = Suc m")
    case True
    then show ?thesis by simp
  next
    case False
    with Suc have "le_res (onFailed n p v s) (onFailed m p v s)" by simp
    moreover have "le_res (onFailed m p v s) (onFailed (Suc m) p v s)"
      using mono_at_all[of m] by (simp add: mono_at_def)
    ultimately show ?thesis by (rule le_res_trans)
  qed
qed

lemma construct_mono: "n \<le> m \<Longrightarrow> le_res (construct n r s) (construct m r s)"
proof (induction m)
  case 0
  then show ?case by simp
next
  case (Suc m)
  show ?case
  proof (cases "n = Suc m")
    case True
    then show ?thesis by simp
  next
    case False
    with Suc have "le_res (construct n r s) (construct m r s)" by simp
    moreover have "le_res (construct m r s) (construct (Suc m) r s)"
      using mono_at_all[of m] by (simp add: mono_at_def)
    ultimately show ?thesis by (rule le_res_trans)
  qed
qed

lemma perform_mono: "n \<le> m \<Longrightarrow> le_res (perform n a s) (perform m a s)"
  by (cases a)
     (simp_all add: perform_def then'_def catch'_def finally'_def
        construct_mono onSuccess_mono onFailed_mono)

lemma run_mono: "n \<le> m \<Longrightarrow> run n acts s = Some s' \<Longrightarrow> run m acts s = Some s'"
proof (induction acts arbitrary: s)
  case Nil
  then show ?case by simp
next
  case (Cons a rest)
  from Cons.prems(2) obtain s1 out where p: "perform n a s = Some (s1, out)"
    and r: "run n rest s1 = Some s'"
    by (auto split: option.splits)
  from perform_mono[OF Cons.prems(1), of a s] p have "perform m a s = Some (s1, out)"
    by (simp add: le_res_def)
  with Cons.IH[OF Cons.prems(1) r] show ?case by simp
qed

section \<open>Settling once\<close>

text \<open>
  No method of the class and no client call changes the state or the value of a promise
  that has settled: only \<open>settle\<close> writes them, and both entry points reach it on a
  pending promise only.
\<close>

lemma stays_simps [simp]:
  "stays p st v None" "stays p st v (Some (s, out)) = settled_as p st v s"
  "stays p st v (ret s) = settled_as p st v s"
  by (simp_all add: stays_def ret_def)

lemma stays_seq:
  "stays p st v m \<Longrightarrow> (\<And>s x. settled_as p st v s \<Longrightarrow> stays p st v (k s x)) \<Longrightarrow>
   stays p st v (seq m k)"
  by (cases "(m, k)" rule: seq.cases) auto

lemma stays_try:
  "stays p st v m \<Longrightarrow> (\<And>s x. settled_as p st v s \<Longrightarrow> stays p st v (k s x)) \<Longrightarrow>
   stays p st v (try_catch m k)"
  by (cases "(m, k)" rule: try_catch.cases) auto

lemma settled_as_updates [simp]:
  "settled_as p st v (push q w f s) = settled_as p st v s"
  "settled_as p st v (upd q (set_cbs w fs) s) = settled_as p st v s"
  "settled_as p st v (upd_cell k g s) = settled_as p st v s"
  "settled_as p st v (declare_results c s) = settled_as p st v s"
  "settled_as p st v (visit c sc s) = settled_as p st v s"
  "settled_as p st v (s\<lparr>calls := cs\<rparr>) = settled_as p st v s"
  by (cases w; auto simp: settled_as_def push_def upd_def set_cbs_def cbs_def upd_cell_def
        declare_results_def visit_def)+

lemma settled_as_settle:
  "settled_as p st v s \<Longrightarrow> state (promises s q) = PENDING \<Longrightarrow>
   settled_as p st v (settle q st' v' s)"
  by (auto simp: settled_as_def settle_def upd_def)

lemma settled_as_alloc:
  "settled_as p st v s \<Longrightarrow>
   settled_as p st v (s\<lparr>promises := (promises s)(next_promise s := new_promise),
                        next_promise := Suc (next_promise s)\<rparr>)"
  by (auto simp: settled_as_def)

lemma stays_at_Suc:
  assumes "stays_at p st v n" shows "stays_at p st v (Suc n)"
proof -
  note IH = assms[unfolded stays_at_def]
  have c: "stays p st v (construct (Suc n) r s)" if "settled_as p st v s" for r s
    unfolding construct_Suc Let_def
    using that IH by (intro stays_seq stays_try) (auto simp: settled_as_alloc)
  have rr: "stays p st v (run_resolver (Suc n) r q s)" if "settled_as p st v s" for r q s
    using that IH by (cases r) (auto simp: run_resolver_Suc Let_def)
  have ex: "stays p st v (exec (Suc n) b q s)" if "settled_as p st v s" for b q s
  proof (cases b)
    case Nil then show ?thesis using that by (simp add: exec_Suc)
  next
    case (Cons a rest)
    then show ?thesis using that IH by (cases a) (auto simp: exec_Suc intro!: stays_seq)
  qed
  have fe: "stays p st v (forEach (Suc n) c sc ps i s)" if "settled_as p st v s" for c sc ps i s
  proof (cases ps)
    case Nil then show ?thesis using that by (simp add: forEach_Suc)
  next
    case (Cons a rest)
    show ?thesis unfolding Cons forEach_Suc
      apply (rule stays_seq)
      using that IH apply simp
      subgoal for s1 r
        apply (cases r; simp)
        apply (rule stays_seq)
        using IH by auto
      done
  qed
  have os: "stays p st v (onSuccess (Suc n) q x s)" if "settled_as p st v s" for q x s
    using that IH by (cases x) (auto simp: onSuccess_Suc settled_as_settle intro!: stays_seq)
  have ofl: "stays p st v (onFailed (Suc n) q x s)" if "settled_as p st v s" for q x s
    using that IH by (cases x) (auto simp: onFailed_Suc Let_def settled_as_settle)
  have rc: "stays p st v (runCallbacks (Suc n) q w s)" if "settled_as p st v s" for q w s
    using that IH by (auto simp: runCallbacks_Suc Let_def intro!: stays_seq)
  have cl: "stays p st v (call (Suc n) f x s)" if "settled_as p st v s" for f x s
  proof (cases f)
    case (ThenCb h q)
    then show ?thesis using that IH by (cases h) (auto simp: call_Suc intro!: stays_seq stays_try)
  next
    case (CatchCb h q)
    then show ?thesis using that IH by (cases h) (auto simp: call_Suc intro!: stays_seq stays_try)
  qed (use that IH in \<open>auto simp: call_Suc Let_def intro!: stays_seq stays_try\<close>)
  show ?thesis
    unfolding stays_at_def by (intro conjI allI impI) (auto intro: c rr ex fe os ofl rc cl)
qed

lemma stays_at_all: "stays_at p st v n"
  by (induction n) (simp_all add: stays_at_def stays_at_Suc[unfolded stays_at_def])

lemma perform_stays:
  "settled_as p st v s \<Longrightarrow> stays p st v (perform n a s)"
  using stays_at_all[of p st v n]
  by (cases a) (auto simp: stays_at_def perform_def then'_def catch'_def finally'_def)

lemma run_stays:
  "settled_as p st v s \<Longrightarrow> run n acts s = Some s' \<Longrightarrow> settled_as p st v s'"
proof (induction acts arbitrary: s)
  case Nil then show ?case by simp
next
  case (Cons a rest)
  from Cons.prems(2) obtain s1 out where p: "perform n a s = Some (s1, out)"
    and r: "run n rest s1 = Some s'"
    by (auto split: option.splits)
  from perform_stays[OF Cons.prems(1), of n a] p have "settled_as p st v s1" by simp
  from Cons.IH[OF this r] show ?case .
qed

text \<open>
  So a promise goes from pending to fulfilled or to rejected at most once: whatever the
  client does afterwards, its state and value are those of the first settlement.
\<close>

lemma settled_forever:
  assumes "state (promises s p) \<noteq> PENDING" and "p < next_promise s"
    and "run n acts s = Some s'"
  shows "state (promises s' p) = state (promises s p)
       \<and> pvalue (promises s' p) = pvalue (promises s p)"
  using run_stays[of p "state (promises s p)" "pvalue (promises s p)" s n acts s'] assms
  by (simp add: settled_as_def)

text \<open>The call that settles a pending promise: its payload is not a promise.\<close>

lemma runCallbacks_stays:
  "settled_as p st v s \<Longrightarrow> runCallbacks n q w s = Some (s', r) \<Longrightarrow> settled_as p st v s'"
  using stays_at_all[of p st v n] unfolding stays_at_def
  by (metis stays_simps(2))

lemma settling_call:
  assumes "state (promises s p) = PENDING" and "p < next_promise s"
    and "\<not> is_promise (payload out)"
    and "perform n (settle_with p out) s = Some (s1, r)"
  shows "settled_as p (settled_state out) (payload out) s1"
proof (cases n)
  case 0
  with assms(4) show ?thesis by (cases out) (simp_all add: perform_def)
next
  case (Suc k)
  show ?thesis
  proof (cases out)
    case (Return v)
    with assms(3) have v: "\<not> is_promise v" by simp
    have st: "settled_as p FULFILLED v (settle p FULFILLED v s)"
      using assms(2) by (simp add: settled_as_def settle_def upd_def)
    from assms(4) have "runCallbacks k p ThenQ (settle p FULFILLED v s) = Some (s1, r)"
      using assms(1) v by (simp add: perform_def Return Suc onSuccess_plain)
    from runCallbacks_stays[OF st this] show ?thesis by (simp add: Return)
  next
    case (Throw e)
    with assms(3) have e: "\<not> is_promise e" by simp
    have st: "settled_as p REJECTED e (settle p REJECTED e s)"
      using assms(2) by (simp add: settled_as_def settle_def upd_def)
    from assms(4) have
      "(if catchCbs (promises s p) = []
        then Some (settle p REJECTED e s, Throw (UncaughtPromiseError (Str ''Unhandle catch'')))
        else runCallbacks k p CatchQ (settle p REJECTED e s)) = Some (s1, r)"
      using assms(1) e by (simp add: perform_def Throw Suc onFailed_plain Let_def)
    with st show ?thesis
      by (auto simp: Throw split: if_splits dest: runCallbacks_stays)
  qed
qed




section \<open>Exceptions in the resolver\<close>

text \<open>
  A resolver that throws straight away: the constructor's \<open>catch\<close> calls \<open>#onFailed\<close>,
  which finds \<open>#catchCbs\<close> empty (or, for a promise, reads the undeclared \<open>value\<close>) and
  throws; nothing catches that, so \<open>new MyPromise\<close> throws.
\<close>

lemma throwing_resolver_escapes:
  "\<exists>s'. construct (Suc (Suc (Suc n))) (UserResolver (ThrowValue e # rest)) s =
     Some (s', Throw (if is_promise e then ReferenceError ''value is not defined''
                      else UncaughtPromiseError (Str ''Unhandle catch'')))"
  by (cases e)
     (simp_all add: construct_Suc run_resolver_Suc exec_Suc onFailed_Suc Let_def
        is_promise_def settle_def upd_def new_promise_def)

text \<open>
  C2, at \<open>new MyPromise(() => { throw "boom" })\<close>: the constructor does not return a
  promise, it throws an UncaughtPromiseError; a resolver that calls \<open>reject("boom")\<close>
  instead gets its promise back, rejected.
\<close>

theorem constructor_throws_when_resolver_throws:
  "thrown (construct 3 (UserResolver [ThrowValue (Str ''boom'')]) empty_heap)
     = Some (UncaughtPromiseError (Str ''Unhandle catch''))
   \<and> map_option snd (construct 4 (UserResolver [CallReject (Str ''boom'')]) empty_heap)
     = Some (Return (Promise 0))"
  by (simp add: exec_simps cong: let_weak_cong)

section \<open>Rejecting with a promise\<close>

lemma reject_with_promise_throws:
  assumes "state (promises s p) = PENDING"
  shows "onFailed (Suc n) p (Promise g) s
           = Some (s, Throw (ReferenceError ''value is not defined''))"
  using assms by (simp add: onFailed_Suc)

text \<open>
  C3, at a pending promise 0 rejected with the pending promise 1: \<open>#onFailed\<close> throws a
  ReferenceError and registers nothing on promise 1, so promise 0 does not follow it:
  when promise 1 is fulfilled afterwards, promise 0 is still pending.
\<close>

theorem reject_with_promise_does_not_adopt:
  "thrown (onFailed 1 0 (Promise 1) pending_heap)
     = Some (ReferenceError ''value is not defined'')
   \<and> state_of 0 (run 9 [Reject 0 (Promise 1), Fulfil 1 (Num 7)] pending_heap)
     = Some PENDING
   \<and> state_of 1 (run 9 [Reject 0 (Promise 1), Fulfil 1 (Num 7)] pending_heap)
     = Some FULFILLED"
  by (simp add: exec_simps cong: let_weak_cong)

section \<open>Unhandled rejections\<close>

text \<open>
  C9, as the code has it: a pending promise with no rejection callback that is rejected
  with a value \<open>e\<close> (not a promise) becomes REJECTED with \<open>e\<close>, and \<open>#onFailed\<close> throws
  an UncaughtPromiseError whose message is the fixed text "Unhandle catch", whatever
  \<open>e\<close> is.
\<close>

theorem unhandled_rejection_message:
  assumes "state (promises s p) = PENDING"
    and "catchCbs (promises s p) = []"
    and "\<not> is_promise e"
  shows "onFailed (Suc n) p e s =
     Some (settle p REJECTED e s, Throw (UncaughtPromiseError (Str ''Unhandle catch'')))"
  using assms by (simp add: onFailed_plain)

theorem unhandled_rejection_message_witness:
  "state (promises pending_heap 0) = PENDING
   \<and> catchCbs (promises pending_heap 0) = []
   \<and> \<not> is_promise (Str ''boom'')
   \<and> onFailed (Suc 0) 0 (Str ''boom'') pending_heap =
       Some (settle 0 REJECTED (Str ''boom'') pending_heap,
             Throw (UncaughtPromiseError (Str ''Unhandle catch'')))"
proof -
  have h1: "state (promises pending_heap 0) = PENDING"
    and h2: "catchCbs (promises pending_heap 0) = []"
    by (simp_all add: pending_heap_def empty_heap_def new_promise_def)
  have h3: "\<not> is_promise (Str ''boom'')"
    by (simp add: is_promise_def)
  show ?thesis
    using h1 h2 h3 unhandled_rejection_message [OF h1 h2 h3, of 0] by simp
qed

text \<open>
  The error thrown for the rejection value "boom" does not carry "boom": its message is
  "Unhandle catch".
\<close>

theorem unhandled_rejection_counterexample:
  "thrown (onFailed 1 0 (Str ''boom'') pending_heap)
     = Some (UncaughtPromiseError (Str ''Unhandle catch''))
   \<and> thrown (onFailed 1 0 (Str ''boom'') pending_heap)
     \<noteq> Some (UncaughtPromiseError (Str ''boom''))"
  by (simp add: exec_simps cong: let_weak_cong)

section \<open>The combinators at their failing inputs\<close>

text \<open>
  C6, at \<open>allSettled([p0, p1])\<close> with both inputs pending, then \<open>p0\<close> fulfilled with 1:
  \<open>resultCount\<close> was already 2 when the loop ended, so the first callback to run
  resolves the returned promise (promise 2) while \<open>p1\<close> is still pending, with an array
  that has one entry.
\<close>

theorem allSettled_fulfills_early:
  "state_of 2 (run 20 [New [], New [], Combine CAllSettled [0, 1], Fulfil 0 (Num 1)]
                 empty_heap) = Some FULFILLED
   \<and> state_of 1 (run 20 [New [], New [], Combine CAllSettled [0, 1], Fulfil 0 (Num 1)]
                 empty_heap) = Some PENDING
   \<and> value_of 2 (run 20 [New [], New [], Combine CAllSettled [0, 1], Fulfil 0 (Num 1)]
                 empty_heap) = Some (Array 0)
   \<and> array_of 0 (run 20 [New [], New [], Combine CAllSettled [0, 1], Fulfil 0 (Num 1)]
                 empty_heap) = Some [Some (fulfilled_entry (Num 1))]"
  by (simp add: exec_simps fulfilled_entry_def cong: let_weak_cong)

text \<open>
  C8, at \<open>any([p0, p1])\<close> with both inputs pending, then both rejected: the callback
  passed to \<open>catch\<close> reads the undeclared \<open>value\<close> and throws before it compares the
  counter, so \<open>reject\<close> is never called and the returned promise (promise 2) stays
  pending after every input has rejected.
\<close>

theorem any_never_rejects:
  "state_of 2 (run 20 [New [], New [], Combine CAny [0, 1],
                       Reject 0 (Str ''a''), Reject 1 (Str ''b'')] empty_heap)
     = Some PENDING
   \<and> state_of 0 (run 20 [New [], New [], Combine CAny [0, 1],
                       Reject 0 (Str ''a''), Reject 1 (Str ''b'')] empty_heap)
     = Some REJECTED
   \<and> state_of 1 (run 20 [New [], New [], Combine CAny [0, 1],
                       Reject 0 (Str ''a''), Reject 1 (Str ''b'')] empty_heap)
     = Some REJECTED"
  by (simp add: exec_simps cong: let_weak_cong)

section \<open>A promise that nothing can settle\<close>

lemma keeps_simps [simp]:
  "keeps p None" "keeps p (Some (s, out)) = untouchable p s" "keeps p (ret s) = untouchable p s"
  by (simp_all add: keeps_def ret_def)

lemma keeps_seq:
  "keeps p m \<Longrightarrow> (\<And>s v. untouchable p s \<Longrightarrow> keeps p (k s v)) \<Longrightarrow> keeps p (seq m k)"
  by (cases "(m, k)" rule: seq.cases) auto

lemma keeps_try:
  "keeps p m \<Longrightarrow> (\<And>s v. untouchable p s \<Longrightarrow> keeps p (k s v)) \<Longrightarrow> keeps p (try_catch m k)"
  by (cases "(m, k)" rule: try_catch.cases) auto

lemma untouchable_push:
  "untouchable p s \<Longrightarrow> \<not> targets p f \<Longrightarrow> untouchable p (push q w f s)"
  by (cases w) (auto simp: untouchable_def unreferenced_def push_def upd_def cbs_def set_cbs_def)

lemma untouchable_settle:
  "untouchable p s \<Longrightarrow> q \<noteq> p \<Longrightarrow> untouchable p (settle q st v s)"
  by (auto simp: untouchable_def unreferenced_def settle_def upd_def)

lemma untouchable_pop:
  "untouchable p s \<Longrightarrow> untouchable p (upd q (set_cbs w (butlast (cbs w (promises s q)))) s)"
  by (cases w) (auto simp: untouchable_def unreferenced_def upd_def cbs_def set_cbs_def dest: in_set_butlastD)

lemma untouchable_alloc:
  "untouchable p s \<Longrightarrow>
   untouchable p (s\<lparr>promises := (promises s)(next_promise s := new_promise),
                   next_promise := Suc (next_promise s)\<rparr>)"
  by (auto simp: untouchable_def unreferenced_def new_promise_def)

lemma untouchable_cells [simp]:
  "untouchable p (upd_cell k g s) = untouchable p s"
  "untouchable p (declare_results c s) = untouchable p s"
  "untouchable p (visit c sc s) = untouchable p s"
  "untouchable p (s\<lparr>calls := cs\<rparr>) = untouchable p s"
  by (auto simp: untouchable_def unreferenced_def upd_cell_def declare_results_def visit_def)

lemma unreferenced_last:
  "untouchable p s \<Longrightarrow> cbs w (promises s q) \<noteq> [] \<Longrightarrow> \<not> targets p (last (cbs w (promises s q)))"
  by (cases w) (auto simp: untouchable_def unreferenced_def cbs_def dest: last_in_set)

lemma keeps_at_Suc:
  assumes "keeps_at p n" shows "keeps_at p (Suc n)"
proof -
  note IH = assms[unfolded keeps_at_def]
  have c: "keeps p (construct (Suc n) r s)" if "untouchable p s" "\<not> targets_resolver p r" for r s
  proof -
    from that(1) have ne: "next_promise s \<noteq> p" by (auto simp: untouchable_def)
    show ?thesis
      unfolding construct_Suc Let_def
      using that IH ne by (intro keeps_seq keeps_try) (auto simp: untouchable_alloc)
  qed
  have rr: "keeps p (run_resolver (Suc n) r q s)"
    if "untouchable p s" "\<not> targets_resolver p r" "q \<noteq> p" for r q s
  proof (cases r)
    case (ThenResolver this thenCb catchCb)
    have "untouchable p (push this CatchQ (CatchCb catchCb q) (push this ThenQ (ThenCb thenCb q) s))"
      using that ThenResolver
      by (cases thenCb; cases catchCb) (auto intro!: untouchable_push simp: targets_resolver_def targets_opt_def)
    then show ?thesis using ThenResolver IH by (auto simp: run_resolver_Suc Let_def)
  next
    case (CombResolver c ps)
    then show ?thesis using that IH by (auto simp: run_resolver_Suc)
  next
    case (UserResolver b)
    then show ?thesis using that IH by (auto simp: run_resolver_Suc)
  qed
  have ex: "keeps p (exec (Suc n) b q s)" if "untouchable p s" "q \<noteq> p" for b q s
  proof (cases b)
    case Nil then show ?thesis using that by (simp add: exec_Suc)
  next
    case (Cons a rest) then show ?thesis using that IH by (cases a) (auto simp: exec_Suc intro!: keeps_seq)
  qed
  have fe: "keeps p (forEach (Suc n) c sc ps i s)" if "untouchable p s" "self sc \<noteq> p" for c sc ps i s
  proof (cases ps)
    case Nil then show ?thesis using that by (simp add: forEach_Suc)
  next
    case (Cons a rest)
    have t: "\<not> targets_resolver p (ThenResolver a (Some (thenFn c sc i)) None)"
      "\<And>p1. \<not> targets_resolver p (ThenResolver p1 None (Some (catchFn c sc i)))"
      using that(2) by (cases c; simp add: targets_resolver_def targets_opt_def thenFn_def catchFn_def)+
    show ?thesis unfolding Cons forEach_Suc
      apply (rule keeps_seq)
      using that IH t apply simp
      subgoal for s1 r
        apply (cases r; simp)
        apply (rule keeps_seq)
        using that IH t by auto
      done
  qed
  have os: "keeps p (onSuccess (Suc n) q v s)" if "untouchable p s" "q \<noteq> p" for q v s
  proof (cases v)
    case (Promise g)
    have "\<not> targets_resolver p (ThenResolver g (Some (OnSuccess q)) (Some (OnFailed q)))"
      using that by (simp add: targets_resolver_def targets_opt_def)
    then show ?thesis using Promise that IH by (auto simp: onSuccess_Suc intro!: keeps_seq)
  qed (use that IH in \<open>auto simp: onSuccess_Suc untouchable_settle\<close>)
  have ofl: "keeps p (onFailed (Suc n) q v s)" if "untouchable p s" "q \<noteq> p" for q v s
    using that IH by (cases v) (auto simp: onFailed_Suc Let_def untouchable_settle)
  have rc: "keeps p (runCallbacks (Suc n) q w s)" if "untouchable p s" for q w s
    using that IH by (auto simp: runCallbacks_Suc Let_def untouchable_pop unreferenced_last intro!: keeps_seq)
  have cl: "keeps p (call (Suc n) f x s)" if "untouchable p s" "\<not> targets p f" for f x s
  proof (cases f)
    case (ThenCb h q)
    then show ?thesis using that IH by (cases h) (auto simp: call_Suc intro!: keeps_seq keeps_try)
  next
    case (CatchCb h q)
    then show ?thesis using that IH by (cases h) (auto simp: call_Suc intro!: keeps_seq keeps_try)
  qed (use that IH in \<open>auto simp: call_Suc Let_def intro!: keeps_seq keeps_try\<close>)
  show ?thesis
    unfolding keeps_at_def by (intro conjI allI impI) (auto intro: c rr ex fe os ofl rc cl)
qed

lemma keeps_at_all: "keeps_at p n"
  by (induction n) (simp_all add: keeps_at_def keeps_at_Suc[unfolded keeps_at_def])

lemma perform_keeps:
  assumes "untouchable p s" "\<not> uses p a"
  shows "keeps p (perform n a s)"
  using assms keeps_at_all[of p n]
  by (cases a) (auto simp: keeps_at_def perform_def uses_def then'_def catch'_def finally'_def targets_resolver_def targets_opt_def)

lemma run_keeps:
  "untouchable p s \<Longrightarrow> \<forall>a \<in> set acts. \<not> uses p a \<Longrightarrow> run n acts s = Some s' \<Longrightarrow> untouchable p s'"
proof (induction acts arbitrary: s)
  case Nil then show ?case by simp
next
  case (Cons a rest)
  from Cons.prems(3) obtain s1 out where p: "perform n a s = Some (s1, out)" and r: "run n rest s1 = Some s'"
    by (auto split: option.splits)
  from perform_keeps[of p s a n] Cons.prems p have "untouchable p s1" by simp
  with Cons.IH[OF _ _ r] Cons.prems(2) show ?case by simp
qed

text \<open>
  C10. Each of \<open>all\<close>, \<open>allSettled\<close>, \<open>race\<close> and \<open>any\<close>, called with the empty array,
  returns a new promise that is pending, and that stays pending whatever is done
  afterwards by code that was not given its \<open>resolve\<close> or \<open>reject\<close>: the loop over the
  inputs registered no callback, so no function that can settle the promise exists.
  The heap the combinator is called in must not mention the address the new promise
  gets.
\<close>

theorem empty_input_never_settles:
  assumes "f = all \<or> f = allSettled \<or> f = race \<or> f = any"
    and "unreferenced (next_promise s) s"
    and "\<forall>a \<in> set acts. \<not> uses (next_promise s) a"
  shows "\<exists>s1. f (Suc (Suc (Suc n))) [] s = Some (s1, Return (Promise (next_promise s)))
           \<and> state (promises s1 (next_promise s)) = PENDING
           \<and> (\<forall>m s2. run m acts s1 = Some s2 \<longrightarrow> state (promises s2 (next_promise s)) = PENDING)"
proof -
  let ?p = "next_promise s"
  from assms(1) obtain c where f: "f = (\<lambda>n ps s. construct n (CombResolver c ps) s)"
    by (auto simp: all_def allSettled_def race_def any_def fun_eq_iff)
  define s1 where "s1 = declare_results c
      (s\<lparr>promises := (promises s)(?p := new_promise), next_promise := Suc ?p\<rparr>)"
  have r: "f (Suc (Suc (Suc n))) [] s = Some (s1, Return (Promise ?p))"
    by (simp add: f construct_Suc run_resolver_Suc forEach_Suc ret_def s1_def Let_def)
  have u: "untouchable ?p s1"
    using assms(2)
    by (auto simp: s1_def untouchable_def unreferenced_def new_promise_def declare_results_def)
  have "state (promises s2 ?p) = PENDING" if "run m acts s1 = Some s2" for m s2
    using run_keeps[OF u assms(3) that] by (simp add: untouchable_def)
  with r u show ?thesis by (auto simp: untouchable_def)
qed

theorem empty_input_never_settles_witness:
  "(all = all \<or> all = allSettled \<or> all = race \<or> all = any)
   \<and> unreferenced (next_promise pending_heap) pending_heap
   \<and> list_all (\<lambda>a. \<not> uses (next_promise pending_heap) a) later_actions
   \<and> (\<exists>s1. all (Suc (Suc (Suc 0))) [] pending_heap = Some (s1, Return (Promise (next_promise pending_heap)))
           \<and> state (promises s1 (next_promise pending_heap)) = PENDING
           \<and> (\<forall>m s2. run m later_actions s1 = Some s2 \<longrightarrow> state (promises s2 (next_promise pending_heap)) = PENDING))"
proof -
  have h1: "all = all \<or> all = allSettled \<or> all = race \<or> all = any" by simp
  have h2: "unreferenced (next_promise pending_heap) pending_heap"
    by (simp add: unreferenced_def pending_heap_def empty_heap_def new_promise_def)
  have h3: "\<forall>a \<in> set later_actions. \<not> uses (next_promise pending_heap) a"
    by (simp add: later_actions_def uses_def targets_opt_def pending_heap_def empty_heap_def)
  show ?thesis
    using h1 h2 h3 empty_input_never_settles [OF h1 h2 h3, of 0]
    by (simp add: list_all_iff)
qed

text \<open>The actions of the witness do run to their end, and leave promise 2 pending.\<close>

lemma later_actions_run:
  "state_of 2 (run 20 (Combine CAll [] # later_actions) pending_heap) = Some PENDING
 \<and> state_of 0 (run 20 (Combine CAll [] # later_actions) pending_heap) = Some PENDING
 \<and> state_of 1 (run 20 (Combine CAll [] # later_actions) pending_heap) = Some FULFILLED"
  by (simp add: exec_simps later_actions_def cong: let_weak_cong)

section \<open>Resolving a promise with a promise\<close>

lemma runCallbacks_empty:
  "cbs q (promises s p) = [] \<Longrightarrow> 0 < n \<Longrightarrow> runCallbacks n p q s = ret s"
  by (cases n) (simp_all add: runCallbacks_Suc)

lemma adopting_frame:
  "(\<And>a. a \<in> set gs \<union> set ws \<Longrightarrow> promises s' a = promises s a) \<Longrightarrow>
   adopting s' gs ws = adopting s gs ws"
  by (induction s gs ws rule: adopting.induct) auto

lemma seq_ret [simp]: "seq (ret s) k = k s Undefined"
  by (simp add: ret_def)

lemma try_catch_ret [simp]: "try_catch (ret s) h = ret s"
  by (simp add: ret_def)

lemma pvalue_set_cbs [simp]:
  "pvalue (promises (upd p (set_cbs q xs) s) p) = pvalue (promises s p)"
  by (cases q) (simp_all add: upd_def set_cbs_def)

lemma runCallbacks_pop:
  "cbs q (promises s p) = xs @ [cb] \<Longrightarrow>
   runCallbacks (Suc n) p q s =
     seq (call n cb (pvalue (promises s p)) (upd p (set_cbs q xs) s))
         (\<lambda>s2 _. runCallbacks n p q s2)"
  by (simp add: runCallbacks_Suc Let_def)

lemma fulfil_link:
  assumes "adopting s gs ws" and "\<not> is_promise v" and "4 * length gs \<le> n"
  shows "onSuccess n (hd gs) v s = Some (fulfil_chain v gs ws s, Return Undefined)"
  using assms
proof (induction gs arbitrary: s ws n rule: induct_list012)
  case 1
  then show ?case by simp
next
  case (2 g)
  then obtain m where n: "n = Suc (Suc m)" by (cases n; cases "n - 1") auto
  have eq: "settle g FULFILLED v s = fulfil_chain v [g] [] s"
    using 2 by (auto simp: settle_def upd_def fulfil_chain_def fun_eq_iff)
  have "onSuccess n (hd [g]) v s = runCallbacks (Suc m) g ThenQ (settle g FULFILLED v s)"
    using 2 by (simp add: n onSuccess_plain)
  also have "\<dots> = ret (settle g FULFILLED v s)"
    using 2 by (intro runCallbacks_empty) (simp_all add: cbs_def settle_def upd_def)
  finally show ?case using 2 by (simp add: eq ret_def)
next
  case (3 g h rest s ws0 n)
  from 3(3) obtain w ws where ws0: "ws0 = w # ws" by (cases ws0) auto
  note 4 = 3(2) 3(3)[unfolded ws0] 3(4) 3(5)
  from 4(4) obtain m where n: "n = Suc (Suc (Suc (Suc m)))" and m: "4 * length (h # rest) \<le> m"
    by (cases n; cases "n - 1"; cases "n - 2"; cases "n - 3") auto
  from m have m0: "0 < m" by simp
  let ?s0 = "settle g FULFILLED v s"
  let ?s1 = "upd g (set_cbs ThenQ []) ?s0"
  let ?s2 = "fulfil_chain v (h # rest) ws ?s1"
  let ?s3 = "fulfil_chain v (g # h # rest) (w # ws) s"
  have a1: "adopting ?s1 (h # rest) ws"
  proof -
    have "adopting ?s1 (h # rest) ws = adopting s (h # rest) ws"
      by (rule adopting_frame) (use 4(2) in \<open>auto simp: upd_def settle_def\<close>)
    with 4(2) show ?thesis by simp
  qed
  have ih: "onSuccess m h v ?s1 = Some (?s2, Return Undefined)"
    using 4(1)[OF a1 4(3) m] by simp
  have eq: "settle w FULFILLED Undefined ?s2 = ?s3"
    using 4(2)
    by (auto simp: settle_def upd_def fulfil_chain_def fun_eq_iff set_cbs_def new_promise_def)
  have wst: "state (promises ?s2 w) = PENDING" "cbs ThenQ (promises (settle w FULFILLED Undefined ?s2) w) = []"
    using 4(2) by (auto simp: fulfil_chain_def upd_def settle_def new_promise_def cbs_def)
  have gq: "cbs ThenQ (promises ?s3 g) = []"
    by (simp add: fulfil_chain_def cbs_def)
  have "onSuccess (Suc m) w Undefined ?s2 = runCallbacks m w ThenQ (settle w FULFILLED Undefined ?s2)"
    using wst by (simp add: onSuccess_plain is_promise_def)
  also have "\<dots> = ret ?s3"
    using runCallbacks_empty[OF wst(2) m0] by (simp add: eq)
  finally have w: "onSuccess (Suc m) w Undefined ?s2 = ret ?s3" .
  have c: "call (Suc (Suc m)) (ThenCb (Some (OnSuccess h)) w) v ?s1 = ret ?s3"
    by (simp add: call_Suc ih w)
  have "onSuccess n (hd (g # h # rest)) v s = runCallbacks (Suc (Suc (Suc m))) g ThenQ ?s0"
    using 4(2,3) by (simp add: n onSuccess_plain)
  also have "\<dots> = seq (call (Suc (Suc m)) (ThenCb (Some (OnSuccess h)) w) v ?s1)
                        (\<lambda>s2 _. runCallbacks (Suc (Suc m)) g ThenQ s2)"
    using 4(2)
    by (subst runCallbacks_pop[where xs = "[]" and cb = "ThenCb (Some (OnSuccess h)) w"])
       (simp_all add: cbs_def settle_def upd_def)
  also have "\<dots> = runCallbacks (Suc (Suc m)) g ThenQ ?s3"
    by (simp add: c ret_def)
  also have "\<dots> = ret ?s3"
    by (rule runCallbacks_empty[OF gq]) simp
  finally show ?case by (simp add: ret_def ws0)
qed

lemma reject_link:
  assumes "adopting s gs ws" and "\<not> is_promise e" and "4 * length gs \<le> n"
  shows "onFailed n (hd gs) e s =
           Some (reject_chain e gs ws s, Throw (UncaughtPromiseError (Str ''Unhandle catch'')))"
  using assms
proof (induction gs arbitrary: s ws n rule: induct_list012)
  case 1
  then show ?case by simp
next
  case (2 g)
  then obtain m where n: "n = Suc m" by (cases n) auto
  have eq: "settle g REJECTED e s = reject_chain e [g] [] s"
    using 2 by (auto simp: settle_def upd_def reject_chain_def fun_eq_iff)
  show ?case using 2 by (simp add: n onFailed_plain eq)
next
  case (3 g h rest s ws0 n)
  from 3(3) obtain w ws where ws0: "ws0 = w # ws" by (cases ws0) auto
  note 4 = 3(2) 3(3)[unfolded ws0] 3(4) 3(5)
  from 4(4) obtain m where n: "n = Suc (Suc (Suc (Suc m)))" and m: "4 * length (h # rest) \<le> m"
    by (cases n; cases "n - 1"; cases "n - 2"; cases "n - 3") auto
  let ?U = "UncaughtPromiseError (Str ''Unhandle catch'')"
  let ?s0 = "settle g REJECTED e s"
  let ?s1 = "upd g (set_cbs CatchQ []) ?s0"
  let ?s2 = "reject_chain e (h # rest) ws ?s1"
  let ?s3 = "reject_chain e (g # h # rest) (w # ws) s"
  have a1: "adopting ?s1 (h # rest) ws"
  proof -
    have "adopting ?s1 (h # rest) ws = adopting s (h # rest) ws"
      by (rule adopting_frame) (use 4(2) in \<open>auto simp: upd_def settle_def\<close>)
    with 4(2) show ?thesis by simp
  qed
  have ih: "onFailed m h e ?s1 = Some (?s2, Throw ?U)"
    using 4(1)[OF a1 4(3) m] by simp
  have eq: "settle w REJECTED ?U ?s2 = ?s3"
    using 4(2)
    by (auto simp: settle_def upd_def reject_chain_def fun_eq_iff set_cbs_def new_promise_def)
  have wst: "state (promises ?s2 w) = PENDING" "catchCbs (promises ?s2 w) = []"
    using 4(2) by (auto simp: reject_chain_def upd_def settle_def new_promise_def)
  have w: "onFailed (Suc m) w ?U ?s2 = Some (?s3, Throw ?U)"
    using wst by (simp add: onFailed_plain is_promise_def eq)
  have c: "call (Suc (Suc m)) (CatchCb (Some (OnFailed h)) w) e ?s1 = Some (?s3, Throw ?U)"
    by (simp add: call_Suc ih w)
  have "onFailed n (hd (g # h # rest)) e s = runCallbacks (Suc (Suc (Suc m))) g CatchQ ?s0"
    using 4(2,3) by (simp add: n onFailed_plain)
  also have "\<dots> = seq (call (Suc (Suc m)) (CatchCb (Some (OnFailed h)) w) e ?s1)
                        (\<lambda>s2 _. runCallbacks (Suc (Suc m)) g CatchQ s2)"
    using 4(2)
    by (subst runCallbacks_pop[where xs = "[]" and cb = "CatchCb (Some (OnFailed h)) w"])
       (simp_all add: cbs_def settle_def upd_def)
  also have "\<dots> = Some (?s3, Throw ?U)"
    by (simp add: c)
  finally show ?case by (simp add: ws0)
qed


lemma run_append:
  "run n (xs @ ys) s = (case run n xs s of None \<Rightarrow> None | Some s1 \<Rightarrow> run n ys s1)"
  by (induction xs arbitrary: s) (auto split: option.splits)

lemma adopt_pending:
  assumes "state (promises s f) = PENDING" and "state (promises s g) = PENDING"
  shows "onSuccess (Suc (Suc (Suc n))) f (Promise g) s = Some (link f g s, Return Undefined)"
  using assms
  by (simp add: onSuccess_Suc construct_Suc run_resolver_Suc Let_def link_def push_def upd_def
        cbs_def set_cbs_def new_promise_def ret_def)

lemma adopting_pending: "adopting s (g # gs) ws \<Longrightarrow> state (promises s g) = PENDING"
  by (cases gs; cases ws) auto

lemma adopt_registers:
  assumes "adopting s (g # gs) ws"
    and "distinct rest"
    and "\<forall>f \<in> set rest. state (promises s f) = PENDING \<and> thenCbs (promises s f) = []
            \<and> catchCbs (promises s f) = [] \<and> f \<notin> set (g # gs) \<and> f \<notin> set ws"
    and "\<forall>a \<in> set (g # gs) \<union> set ws \<union> set rest. a < next_promise s"
    and "3 \<le> n"
  shows "\<exists>s' ws'. run n (adopt (g # rest)) s = Some s' \<and> adopting s' (rev rest @ g # gs) ws'
           \<and> (\<forall>a. a < next_promise s \<and> a \<notin> set rest \<longrightarrow> promises s' a = promises s a)
           \<and> (\<forall>w \<in> set ws'. w \<in> set ws \<or> next_promise s \<le> w)
           \<and> (\<forall>a \<in> set ws'. a < next_promise s')
           \<and> next_promise s \<le> next_promise s'"
  using assms
proof (induction rest arbitrary: s g gs ws)
  case Nil
  then show ?case by auto
next
  case (Cons f rest)
  let ?w = "next_promise s"
  let ?s1 = "link g f s"
  from Cons.prems(5) obtain m where n: "n = Suc (Suc (Suc m))"
    by (cases n; cases "n - 1"; cases "n - 2") auto
  have pg: "state (promises s g) = PENDING"
    using Cons.prems(1) by (rule adopting_pending)
  have step: "perform n (Fulfil g (Promise f)) s = Some (?s1, Return Undefined)"
    using pg Cons.prems(3) by (simp add: perform_def n adopt_pending)
  have fr: "adopting ?s1 (g # gs) ws = adopting s (g # gs) ws"
    by (rule adopting_frame)
       (use Cons.prems(3,4) in \<open>auto simp: link_def push_def upd_def\<close>)
  have a1: "adopting ?s1 (f # g # gs) (?w # ws)"
    using Cons.prems fr
    by (auto simp: link_def push_def upd_def cbs_def set_cbs_def new_promise_def)
  have "\<exists>s' ws'. run n (adopt (f # rest)) ?s1 = Some s'
           \<and> adopting s' (rev rest @ f # g # gs) ws'
           \<and> (\<forall>a. a < next_promise ?s1 \<and> a \<notin> set rest \<longrightarrow> promises s' a = promises ?s1 a)
           \<and> (\<forall>w \<in> set ws'. w \<in> set (?w # ws) \<or> next_promise ?s1 \<le> w)
           \<and> (\<forall>a \<in> set ws'. a < next_promise s')
           \<and> next_promise ?s1 \<le> next_promise s'"
  proof (rule Cons.IH[OF a1])
    show "distinct rest" using Cons.prems(2) by simp
    show "\<forall>f' \<in> set rest. state (promises ?s1 f') = PENDING \<and> thenCbs (promises ?s1 f') = []
            \<and> catchCbs (promises ?s1 f') = [] \<and> f' \<notin> set (f # g # gs) \<and> f' \<notin> set (?w # ws)"
      using Cons.prems(2,3,4) by (auto simp: link_def push_def upd_def)
    show "\<forall>a \<in> set (f # g # gs) \<union> set (?w # ws) \<union> set rest. a < next_promise ?s1"
      using Cons.prems(4) by (auto simp: link_def push_def upd_def less_Suc_eq)
    show "3 \<le> n" by fact
  qed
  then obtain s' ws' where r: "run n (adopt (f # rest)) ?s1 = Some s'"
    and a: "adopting s' (rev rest @ f # g # gs) ws'"
    and fr': "\<forall>a. a < next_promise ?s1 \<and> a \<notin> set rest \<longrightarrow> promises s' a = promises ?s1 a"
    and w': "\<forall>w \<in> set ws'. w \<in> set (?w # ws) \<or> next_promise ?s1 \<le> w"
    and b': "\<forall>a \<in> set ws'. a < next_promise s'"
    and nx: "next_promise ?s1 \<le> next_promise s'"
    by blast
  have nx1: "next_promise ?s1 = Suc ?w"
    by (simp add: link_def push_def upd_def)
  have "\<forall>a. a < ?w \<and> a \<notin> set (f # rest) \<longrightarrow> promises s' a = promises s a"
    using fr' nx1 by (auto simp: link_def push_def upd_def)
  moreover have "\<forall>w \<in> set ws'. w \<in> set ws \<or> ?w \<le> w"
    using w' nx1 by auto
  moreover have "?w \<le> next_promise s'"
    using nx nx1 by simp
  ultimately show ?case
    using step r a b' by auto
qed

lemma adopt_snoc: "fs \<noteq> [] \<Longrightarrow> adopt (fs @ [g]) = adopt fs @ [Fulfil (last fs) (Promise g)]"
  by (induction fs rule: induct_list012) auto

lemma adopt_fulfilled:
  assumes "adopting s gs ws"
    and "state (promises s g) = FULFILLED" and "\<not> is_promise (pvalue (promises s g))"
    and "thenCbs (promises s g) = []"
    and "g \<notin> set gs" and "g \<notin> set ws"
    and "\<forall>a \<in> set gs \<union> set ws \<union> {g}. a < next_promise s"
    and "4 * length gs + 6 \<le> n"
  shows "\<exists>s'. onSuccess n (hd gs) (Promise g) s = Some (s', Return Undefined)
           \<and> (\<forall>f \<in> set gs. state (promises s' f) = FULFILLED
                  \<and> pvalue (promises s' f) = pvalue (promises s g))"
proof -
  from assms(1) obtain f gs' where gs: "gs = f # gs'" by (cases gs) auto
  from assms(8) obtain m where n: "n = Suc (Suc (Suc (Suc (Suc (Suc m)))))"
      and m: "4 * length gs \<le> m"
    by (cases n; cases "n - 1"; cases "n - 2"; cases "n - 3"; cases "n - 4"; cases "n - 5") auto
  from m gs have m0: "0 < m" by simp
  let ?w = "next_promise s"
  let ?v = "pvalue (promises s g)"
  let ?s3 = "link f g s"
  let ?s4 = "upd g (set_cbs ThenQ []) ?s3"
  let ?s5 = "fulfil_chain ?v gs ws ?s4"
  let ?s6 = "settle ?w FULFILLED Undefined ?s5"
  have pf: "state (promises s f) = PENDING"
    using assms(1) unfolding gs by (rule adopting_pending)
  have fr: "adopting ?s4 gs ws = adopting s gs ws"
    by (rule adopting_frame)
       (use assms(5,6,7) in \<open>auto simp: link_def push_def upd_def\<close>)
  have ih: "onSuccess m f ?v ?s4 = Some (?s5, Return Undefined)"
    using fulfil_link[of ?s4 gs ws ?v m] fr assms(1,3) m by (simp add: gs)
  have wst: "state (promises ?s5 ?w) = PENDING" "cbs ThenQ (promises ?s6 ?w) = []"
    using assms(5,6,7)
    by (auto simp: fulfil_chain_def upd_def settle_def new_promise_def cbs_def link_def push_def
          set_cbs_def)
  have w: "onSuccess (Suc m) ?w Undefined ?s5 = ret ?s6"
    using wst runCallbacks_empty[OF wst(2) m0] by (simp add: onSuccess_plain is_promise_def)
  have c: "call (Suc (Suc m)) (ThenCb (Some (OnSuccess f)) ?w) ?v ?s4 = ret ?s6"
    by (simp add: call_Suc ih w)
  have val: "pvalue (promises ?s3 g) = ?v" "state (promises ?s3 g) = FULFILLED"
    using assms(2,7) by (auto simp: link_def push_def upd_def set_cbs_def)
  have q: "cbs ThenQ (promises ?s3 g) = [] @ [ThenCb (Some (OnSuccess f)) ?w]"
    using assms(4,7) by (auto simp: link_def push_def upd_def set_cbs_def cbs_def)
  have gq: "cbs ThenQ (promises ?s6 g) = []"
    using assms(5,6,7)
    by (auto simp: fulfil_chain_def upd_def settle_def cbs_def link_def push_def set_cbs_def)
  have "runCallbacks (Suc (Suc (Suc m))) g ThenQ ?s3
          = seq (call (Suc (Suc m)) (ThenCb (Some (OnSuccess f)) ?w) ?v ?s4)
                (\<lambda>s2 _. runCallbacks (Suc (Suc m)) g ThenQ s2)"
    by (subst runCallbacks_pop[OF q]) (simp add: val)
  also have "\<dots> = runCallbacks (Suc (Suc m)) g ThenQ ?s6"
    by (simp add: c)
  also have "\<dots> = ret ?s6"
    by (rule runCallbacks_empty[OF gq]) simp
  finally have rc: "runCallbacks (Suc (Suc (Suc m))) g ThenQ ?s3 = ret ?s6" .
  have rr: "run_resolver (Suc (Suc (Suc (Suc m))))
              (ThenResolver g (Some (OnSuccess f)) (Some (OnFailed f))) ?w
              (s\<lparr>promises := (promises s)(?w := new_promise), next_promise := Suc ?w\<rparr>)
            = ret ?s6"
    using val rc by (simp add: run_resolver_Suc Let_def link_def)
  have "onSuccess n f (Promise g) s = Some (?s6, Return Undefined)"
    using pf by (simp add: n onSuccess_Suc construct_Suc Let_def rr) (simp add: ret_def)
  moreover have "\<forall>a \<in> set gs. state (promises ?s6 a) = FULFILLED \<and> pvalue (promises ?s6 a) = ?v"
    using assms(7) by (auto simp: settle_def upd_def fulfil_chain_def)
  ultimately show ?thesis by (simp add: gs)
qed

lemma adopt_rejected:
  assumes "adopting s gs ws"
    and "state (promises s g) = REJECTED" and "\<not> is_promise (pvalue (promises s g))"
    and "catchCbs (promises s g) = []"
    and "g \<notin> set gs" and "g \<notin> set ws"
    and "\<forall>a \<in> set gs \<union> set ws \<union> {g}. a < next_promise s"
    and "4 * length gs + 6 \<le> n"
  shows "\<exists>s'. onSuccess n (hd gs) (Promise g) s = Some (s', Return Undefined)
           \<and> (\<forall>f \<in> set gs. state (promises s' f) = REJECTED
                  \<and> pvalue (promises s' f) = pvalue (promises s g))"
proof -
  from assms(1) obtain f gs' where gs: "gs = f # gs'" by (cases gs) auto
  from assms(8) obtain m where n: "n = Suc (Suc (Suc (Suc (Suc (Suc m)))))"
      and m: "4 * length gs \<le> m"
    by (cases n; cases "n - 1"; cases "n - 2"; cases "n - 3"; cases "n - 4"; cases "n - 5") auto
  let ?U = "UncaughtPromiseError (Str ''Unhandle catch'')"
  let ?w = "next_promise s"
  let ?e = "pvalue (promises s g)"
  let ?s3 = "link f g s"
  let ?s4 = "upd g (set_cbs CatchQ []) ?s3"
  let ?s5 = "reject_chain ?e gs ws ?s4"
  let ?s6 = "settle ?w REJECTED ?U ?s5"
  have pf: "state (promises s f) = PENDING"
    using assms(1) unfolding gs by (rule adopting_pending)
  have fr: "adopting ?s4 gs ws = adopting s gs ws"
    by (rule adopting_frame)
       (use assms(5,6,7) in \<open>auto simp: link_def push_def upd_def\<close>)
  have ih: "onFailed m f ?e ?s4 = Some (?s5, Throw ?U)"
    using reject_link[of ?s4 gs ws ?e m] fr assms(1,3) m by (simp add: gs)
  have wst: "state (promises ?s5 ?w) = PENDING" "catchCbs (promises ?s5 ?w) = []"
    using assms(5,6,7)
    by (auto simp: reject_chain_def upd_def settle_def new_promise_def cbs_def link_def push_def
          set_cbs_def)
  have w: "onFailed (Suc m) ?w ?U ?s5 = Some (?s6, Throw ?U)"
    using wst by (simp add: onFailed_plain is_promise_def)
  have c: "call (Suc (Suc m)) (CatchCb (Some (OnFailed f)) ?w) ?e ?s4 = Some (?s6, Throw ?U)"
    by (simp add: call_Suc ih w)
  have val: "pvalue (promises ?s3 g) = ?e" "state (promises ?s3 g) = REJECTED"
    using assms(2,7) by (auto simp: link_def push_def upd_def set_cbs_def)
  have q: "cbs CatchQ (promises ?s3 g) = [] @ [CatchCb (Some (OnFailed f)) ?w]"
    using assms(4,7) by (auto simp: link_def push_def upd_def set_cbs_def cbs_def)
  have rc: "runCallbacks (Suc (Suc (Suc m))) g CatchQ ?s3 = Some (?s6, Throw ?U)"
    by (subst runCallbacks_pop[OF q]) (simp add: val c)
  have rr: "run_resolver (Suc (Suc (Suc (Suc m))))
              (ThenResolver g (Some (OnSuccess f)) (Some (OnFailed f))) ?w
              (s\<lparr>promises := (promises s)(?w := new_promise), next_promise := Suc ?w\<rparr>)
            = Some (?s6, Throw ?U)"
    using val rc by (simp add: run_resolver_Suc Let_def link_def)
  have ws6: "state (promises ?s6 ?w) \<noteq> PENDING"
    by (simp add: settle_def upd_def)
  have "onSuccess n f (Promise g) s = Some (?s6, Return Undefined)"
    using pf ws6 by (simp add: n onSuccess_Suc construct_Suc Let_def rr onFailed_Suc) (simp add: ret_def)
  moreover have "\<forall>a \<in> set gs. state (promises ?s6 a) = REJECTED \<and> pvalue (promises ?s6 a) = ?e"
    using assms(7) by (auto simp: settle_def upd_def reject_chain_def)
  ultimately show ?thesis by (simp add: gs)
qed

lemma adopt_settled:
  assumes "adopting s gs ws"
    and "drained s g" and "\<not> is_promise (pvalue (promises s g))"
    and "g \<notin> set gs" and "g \<notin> set ws"
    and "\<forall>a \<in> set gs \<union> set ws \<union> {g}. a < next_promise s"
    and "4 * length gs + 6 \<le> n"
  shows "\<exists>s'. onSuccess n (hd gs) (Promise g) s = Some (s', Return Undefined)
           \<and> (\<forall>f \<in> set gs. state (promises s' f) = state (promises s g)
                  \<and> pvalue (promises s' f) = pvalue (promises s g))"
proof (cases "state (promises s g)")
  case PENDING
  with assms(2) show ?thesis by (simp add: drained_def)
next
  case FULFILLED
  with assms(2) have "thenCbs (promises s g) = []" by (simp add: drained_def)
  from adopt_fulfilled[OF assms(1) FULFILLED assms(3) this assms(4-7)] FULFILLED
  show ?thesis by simp
next
  case REJECTED
  with assms(2) have "catchCbs (promises s g) = []" by (simp add: drained_def)
  from adopt_rejected[OF assms(1) REJECTED assms(3) this assms(4-7)] REJECTED
  show ?thesis by simp
qed




section \<open>\<open>all\<close> on pending inputs\<close>

lemma all_input_fulfilled:
  assumes w: "waiting s sc i a b c"
    and d: "a \<noteq> b" "a \<noteq> c" "b \<noteq> c" "self sc \<noteq> a" "self sc \<noteq> b" "self sc \<noteq> c"
    and o: "state (promises s (self sc)) = PENDING \<longrightarrow> thenCbs (promises s (self sc)) = []"
    and v: "\<not> is_promise v"
  shows "onSuccess (Suc (Suc (Suc (Suc (Suc (Suc (Suc (Suc n)))))))) a v s
           = Some (after_fulfil sc i a b c v s, Return Undefined)"
proof -
  have "onSuccess (Suc (Suc (Suc (Suc (Suc (Suc (Suc (Suc n)))))))) a v s
          = runCallbacks (Suc (Suc (Suc (Suc (Suc (Suc (Suc n))))))) a ThenQ (settle a FULFILLED v s)"
    by (rule onSuccess_plain) (use w v in \<open>simp_all add: waiting_def\<close>)
  also have "\<dots> = Some (after_fulfil sc i a b c v s, Return Undefined)"
    using w d o
    by (auto simp: onSuccess_Suc call_Suc runCallbacks_Suc Let_def cbs_def settle_def upd_def
          upd_cell_def set_cbs_def waiting_def ret_def complete_def after_fulfil_def)
  finally show ?thesis .
qed

lemma onSuccess_settled:
  "state (promises s p) \<noteq> PENDING \<Longrightarrow> onSuccess (Suc n) p v s = ret s"
  by (simp add: onSuccess_Suc)

lemma onFailed_settled:
  "state (promises s p) \<noteq> PENDING \<Longrightarrow> onFailed (Suc n) p e s = ret s"
  by (simp add: onFailed_Suc)

lemma all_input_rejected:
  assumes w: "waiting s sc i a b c"
    and d: "a \<noteq> b" "a \<noteq> c" "b \<noteq> c" "self sc \<noteq> a" "self sc \<noteq> b" "self sc \<noteq> c"
    and o: "state (promises s (self sc)) = PENDING \<longrightarrow> catchCbs (promises s (self sc)) = []"
    and e: "\<not> is_promise e"
  shows "onFailed (Suc (Suc (Suc (Suc (Suc (Suc (Suc (Suc n)))))))) a e s
           = Some (after_reject sc a b c e s,
                   if state (promises s (self sc)) = PENDING
                   then Throw (UncaughtPromiseError (Str ''Unhandle catch''))
                   else Return Undefined)"
proof (cases "state (promises s (self sc)) = PENDING")
  case True
  with w d o e show ?thesis
    by (simp add: onFailed_plain onSuccess_Suc call_Suc runCallbacks_Suc Let_def cbs_def settle_def upd_def
          set_cbs_def waiting_def ret_def after_reject_def is_promise_def)
next
  case False
  with w d o e show ?thesis
    by (simp add: onFailed_plain onFailed_settled onSuccess_Suc call_Suc runCallbacks_Suc Let_def cbs_def settle_def upd_def
          set_cbs_def waiting_def ret_def after_reject_def is_promise_def)
qed

lemma then_on_pending:
  assumes "state (promises s p) = PENDING"
  shows "construct (Suc (Suc n)) (ThenResolver p thenCb catchCb) s
           = Some (attach p thenCb catchCb s, Return (Promise (next_promise s)))"
  using assms
  by (simp add: construct_Suc run_resolver_Suc Let_def attach_def push_def upd_def
        cbs_def set_cbs_def new_promise_def ret_def)

lemma waiting_frame:
  "promises s' a = promises s a \<Longrightarrow> promises s' b = promises s b \<Longrightarrow>
   promises s' c = promises s c \<Longrightarrow> waiting s' sc i a b c = waiting s sc i a b c"
  by (simp add: waiting_def)

lemma forEach_registers:
  assumes "registered ps sc j s" and "rest = drop j ps" and "j \<le> length ps"
    and "distinct ps" and "\<forall>p \<in> set ps. p < self sc"
    and "length rest + 2 \<le> n"
  shows "\<exists>s'. forEach n CAll sc rest j s = Some (s', Return Undefined)
           \<and> registered ps sc (length ps) s'"
  using assms
proof (induction rest arbitrary: j s n)
  case Nil
  then have "j = length ps" by simp
  moreover from Nil obtain m where "n = Suc m" by (cases n) auto
  ultimately show ?case using Nil by (simp add: forEach_Suc ret_def)
next
  case (Cons p rest)
  from Cons.prems(6) obtain m where n: "n = Suc (Suc (Suc m))" and m: "length rest + 2 \<le> Suc (Suc m)"
    by (cases n; cases "n - 1"; cases "n - 2") auto
  from Cons.prems(2) have j: "j < length ps"
    by (cases "j < length ps") auto
  from Cons.prems(2) Cons_nth_drop_Suc[OF j]
  have "p # rest = ps ! j # drop (Suc j) ps" by simp
  then have p: "p = ps ! j" and rest: "rest = drop (Suc j) ps"
    by simp_all
  let ?o = "self sc"
  let ?b = "slot1 ?o j"
  let ?c = "slot2 ?o j"
  let ?s1 = "attach p (Some (AllThen sc j)) None s"
  let ?s2 = "attach ?b None (Some (AllCatch sc)) ?s1"
  note r = Cons.prems(1)[unfolded registered_def]
  have nb: "next_promise s = ?b" using r by (simp add: slot1_def)
  have fp: "fresh s p" using r j p by simp
  have c1: "construct (Suc (Suc m)) (ThenResolver p (Some (AllThen sc j)) None) s
              = Some (?s1, Return (Promise ?b))"
    using fp by (simp add: then_on_pending fresh_def nb)
  have pb: "state (promises ?s1 ?b) = PENDING" "next_promise ?s1 = ?c"
    using nb Cons.prems(5) j p
    by (auto simp: attach_def push_def upd_def new_promise_def set_cbs_def slot1_def slot2_def)
  have c2: "construct (Suc (Suc m)) (ThenResolver ?b None (Some (AllCatch sc))) ?s1
              = Some (?s2, Return (Promise ?c))"
    using pb by (simp add: then_on_pending)
  have plt: "\<forall>i < length ps. ps ! i < ?o" using Cons.prems(5) by simp
  have plo: "ps ! j < ?o" using plt j by simp
  have reg: "registered ps sc (Suc j) ?s2"
    unfolding registered_def
  proof (intro conjI allI impI)
    fix i assume "i < Suc j"
    show "waiting ?s2 sc i (ps ! i) (slot1 ?o i) (slot2 ?o i)"
    proof (cases "i = j")
      case True
      then show ?thesis
        using fp nb plo
        by (auto simp: waiting_def attach_def push_def upd_def cbs_def set_cbs_def new_promise_def
              fresh_def slot1_def slot2_def p)
    next
      case False
      with \<open>i < Suc j\<close> have ij: "i < j" by simp
      then have w: "waiting s sc i (ps ! i) (slot1 ?o i) (slot2 ?o i)" using r by simp
      have ne: "ps ! i \<noteq> p" using Cons.prems(4) ij j p by (auto simp: nth_eq_iff_index_eq)
      have lt: "ps ! i < ?o" "p < ?o" using plt ij j p by auto
      have "waiting ?s2 sc i (ps ! i) (slot1 ?o i) (slot2 ?o i)
              = waiting s sc i (ps ! i) (slot1 ?o i) (slot2 ?o i)"
        by (rule waiting_frame)
           (use ne ij nb lt in \<open>auto simp: attach_def push_def upd_def slot1_def slot2_def\<close>)
      with w show ?thesis by simp
    qed
  next
    fix i assume "Suc j \<le> i \<and> i < length ps"
    then have "fresh s (ps ! i)" and "ps ! i \<noteq> p" and "ps ! i < ?o"
      using r Cons.prems(4) j p plt by (auto simp: nth_eq_iff_index_eq)
    then show "fresh ?s2 (ps ! i)"
      using nb by (auto simp: fresh_def attach_def push_def upd_def slot1_def)
  next
    show "fresh ?s2 ?o"
      using r nb plo by (auto simp: fresh_def attach_def push_def upd_def slot1_def p)
  next
    show "cells ?s2 (cell sc) = new_cell"
      using r by (simp add: attach_def push_def upd_def)
  next
    show "next_promise ?s2 = Suc (?o + 2 * Suc j)"
      using nb by (simp add: attach_def push_def upd_def slot1_def)
  qed
  have "\<exists>s'. forEach (Suc (Suc m)) CAll sc rest (Suc j) ?s2 = Some (s', Return Undefined)
           \<and> registered ps sc (length ps) s'"
    using Cons.IH[OF reg rest _ Cons.prems(4,5) m] j by simp
  then show ?case
    by (simp add: n forEach_Suc visit_def thenFn_def catchFn_def c1 c2)
qed

lemma first_error_snoc:
  "first_error (D @ [(i, out)]) =
     (case first_error D of Some e \<Rightarrow> Some e
      | None \<Rightarrow> (case out of Return v \<Rightarrow> None | Throw e \<Rightarrow> Some e))"
  by (induction D rule: first_error.induct) (auto split: outcome.splits)

lemma fulfilled_count_snoc:
  "fulfilled_count (D @ [(i, out)]) =
     (case out of Return v \<Rightarrow> Suc (fulfilled_count D) | Throw e \<Rightarrow> fulfilled_count D)"
  by (induction D rule: fulfilled_count.induct) (auto split: outcome.splits)

lemma fulfilled_count_all: "first_error D = None \<Longrightarrow> fulfilled_count D = length D"
  by (induction D rule: first_error.induct) auto

lemma no_error_Return:
  "first_error D = None \<Longrightarrow> (i, out) \<in> set D \<Longrightarrow> \<exists>v. out = Return v"
  by (induction D rule: first_error.induct) auto

lemma room_left:
  assumes "distinct (map fst D)" and "\<forall>j \<in> fst ` set D. j < n" and "i < n" and "i \<notin> fst ` set D"
  shows "length D < n"
proof -
  have "fst ` set D \<subseteq> {0..<n} - {i}" using assms by auto
  then have "card (fst ` set D) \<le> card ({0..<n} - {i})" by (intro card_mono) auto
  also have "\<dots> < n" using assms(3) by simp
  finally have "card (set (map fst D)) < n" by simp
  moreover have "card (set (map fst D)) = length (map fst D)"
    using assms(1) by (rule distinct_card)
  ultimately show ?thesis by simp
qed

lemma slots:
  "o' < slot1 o' i" "o' < slot2 o' i" "slot1 o' i \<noteq> slot2 o' j"
  "i \<noteq> j \<Longrightarrow> slot1 o' i \<noteq> slot1 o' j" "i \<noteq> j \<Longrightarrow> slot2 o' i \<noteq> slot2 o' j"
  unfolding slot1_def slot2_def by presburger+

lemma assign_props:
  "i < length (assign xs i v)" "assign xs i v ! i = Some v"
  "j \<noteq> i \<Longrightarrow> j < length xs \<Longrightarrow> j < length (assign xs i v) \<and> assign xs i v ! j = xs ! j"
  "length xs \<le> n \<Longrightarrow> i < n \<Longrightarrow> length (assign xs i v) \<le> n"
  by (auto simp: assign_def nth_append)

lemma after_fulfil_frame:
  "x \<noteq> a \<Longrightarrow> x \<noteq> b \<Longrightarrow> x \<noteq> c \<Longrightarrow> x \<noteq> self sc \<Longrightarrow>
   promises (after_fulfil sc i a b c v s) x = promises s x"
  by (simp add: after_fulfil_def Let_def settle_def upd_def upd_cell_def)

lemma after_reject_frame:
  "x \<noteq> a \<Longrightarrow> x \<noteq> b \<Longrightarrow> x \<noteq> c \<Longrightarrow> x \<noteq> self sc \<Longrightarrow>
   promises (after_reject sc a b c e s) x = promises s x"
  by (simp add: after_reject_def Let_def settle_def upd_def)

lemma after_fulfil_outer:
  "self sc \<noteq> a \<Longrightarrow> self sc \<noteq> b \<Longrightarrow> self sc \<noteq> c \<Longrightarrow>
   promises (after_fulfil sc i a b c v s) (self sc) =
     (if Suc (resultCount (cells s (cell sc))) = len sc \<and> state (promises s (self sc)) = PENDING
      then (promises s (self sc))\<lparr>state := FULFILLED, pvalue := Array (cell sc)\<rparr>
      else promises s (self sc))"
  by (simp add: after_fulfil_def Let_def settle_def upd_def upd_cell_def complete_def increment_def store_def)

lemma after_fulfil_cell:
  "cells (after_fulfil sc i a b c v s) (cell sc) = (increment \<circ> store i v) (cells s (cell sc))"
  by (simp add: after_fulfil_def Let_def settle_def upd_def upd_cell_def)

lemma after_reject_outer:
  "self sc \<noteq> a \<Longrightarrow> self sc \<noteq> b \<Longrightarrow> self sc \<noteq> c \<Longrightarrow>
   promises (after_reject sc a b c e s) (self sc) =
     (if state (promises s (self sc)) = PENDING
      then (promises s (self sc))\<lparr>state := REJECTED, pvalue := e\<rparr>
      else promises s (self sc))"
  by (simp add: after_reject_def Let_def settle_def upd_def)

lemma after_reject_cell:
  "cells (after_reject sc a b c e s) = cells s"
  by (simp add: after_reject_def Let_def settle_def upd_def)

lemma all_inv_step:
  assumes inv: "all_inv ps sc D s" and sc: "len sc = length ps"
    and i: "i < length ps" "i \<notin> fst ` set D"
    and D: "distinct (map fst D)" "\<forall>j \<in> fst ` set D. j < length ps"
    and pl: "\<not> is_promise (payload out)"
    and ps: "distinct ps" "\<forall>p \<in> set ps. p < self sc"
    and n: "8 \<le> n"
  shows "\<exists>s' r. perform n (settle_with (ps ! i) out) s = Some (s', r)
            \<and> all_inv ps sc (D @ [(i, out)]) s'"
proof -
  let ?o = "self sc" and ?k = "cell sc"
  let ?a = "ps ! i" and ?b = "slot1 (self sc) i" and ?c = "slot2 (self sc) i"
  from n obtain m where n8: "n = Suc (Suc (Suc (Suc (Suc (Suc (Suc (Suc m)))))))"
    by (cases n; cases "n - 1"; cases "n - 2"; cases "n - 3"; cases "n - 4"; cases "n - 5";
        cases "n - 6"; cases "n - 7") auto
  note I = inv[unfolded all_inv_def]
  have w: "waiting s sc i ?a ?b ?c" using I i by simp
  have ao: "?a < ?o" using ps(2) i(1) by simp
  have d: "?a \<noteq> ?b" "?a \<noteq> ?c" "?b \<noteq> ?c" "?o \<noteq> ?a" "?o \<noteq> ?b" "?o \<noteq> ?c"
    using ao slots(1,2,3)[of ?o i] by auto
  have room: "length D < length ps" using room_left[OF D i] .
  have outer: "state (promises s ?o) = PENDING \<longrightarrow> fresh s ?o"
    using I room by (auto split: option.splits)
  have others: "waiting s' sc j (ps ! j) (slot1 ?o j) (slot2 ?o j)"
    if fr: "\<And>x. x \<noteq> ?a \<Longrightarrow> x \<noteq> ?b \<Longrightarrow> x \<noteq> ?c \<Longrightarrow> x \<noteq> ?o \<Longrightarrow> promises s' x = promises s x"
      and j: "j < length ps" "j \<notin> fst ` set (D @ [(i, out)])" for s' j
  proof -
    from j have ji: "j \<noteq> i" and jD: "j \<notin> fst ` set D" by auto
    have wj: "waiting s sc j (ps ! j) (slot1 ?o j) (slot2 ?o j)" using I j(1) jD by simp
    have pj: "ps ! j \<noteq> ?a" "ps ! j < ?o"
      using ps ji j(1) i(1) by (auto simp: nth_eq_iff_index_eq)
    have "waiting s' sc j (ps ! j) (slot1 ?o j) (slot2 ?o j)
            = waiting s sc j (ps ! j) (slot1 ?o j) (slot2 ?o j)"
    proof (rule waiting_frame)
      show "promises s' (ps ! j) = promises s (ps ! j)"
        using pj slots(1,2)[of ?o i] by (intro fr) auto
      show "promises s' (slot1 ?o j) = promises s (slot1 ?o j)"
        using ao ji slots(1)[of ?o j] slots(3)[of ?o j i] slots(4)[of j i ?o] by (intro fr) auto
      show "promises s' (slot2 ?o j) = promises s (slot2 ?o j)"
        using ao ji slots(2)[of ?o j] slots(3)[of ?o i j] slots(5)[of j i ?o] by (intro fr) auto
    qed
    with wj show ?thesis by simp
  qed
  show ?thesis
  proof (cases out)
    case (Return v)
    let ?s' = "after_fulfil sc i ?a ?b ?c v s"
    have v: "\<not> is_promise v" using pl Return by simp
    have run: "perform n (settle_with ?a out) s = Some (?s', Return Undefined)"
      using all_input_fulfilled[OF w d _ v, of m] outer
      by (simp add: perform_def Return n8 fresh_def)
    have cellv: "cells ?s' ?k = (increment \<circ> store i v) (cells s ?k)"
      by (rule after_fulfil_cell)
    have R: "j < length (results (cells ?s' ?k)) \<and> results (cells ?s' ?k) ! j = Some u"
      if "(j, Return u) \<in> set (D @ [(i, out)])" for j u
    proof -
      from that consider "j = i" "u = v" | "j \<noteq> i" "(j, Return u) \<in> set D"
        using i(2) Return by (auto simp: image_iff)
      then show ?thesis
      proof cases
        case 1
        then show ?thesis by (simp add: cellv increment_def store_def assign_props)
      next
        case 2
        with I have "j < length (results (cells s ?k))" "results (cells s ?k) ! j = Some u"
          by auto
        with 2(1) show ?thesis
          using assign_props(3)[of j i "results (cells s ?k)" v]
          by (simp add: cellv increment_def store_def)
      qed
    qed
    have "all_inv ps sc (D @ [(i, out)]) ?s'"
      unfolding all_inv_def
    proof (intro conjI allI impI)
      fix j assume "j < length ps" "j \<notin> fst ` set (D @ [(i, out)])"
      then show "waiting ?s' sc j (ps ! j) (slot1 ?o j) (slot2 ?o j)"
        by (intro others after_fulfil_frame) auto
    next
      show "resultCount (cells ?s' ?k) = fulfilled_count (D @ [(i, out)])"
        using I by (simp add: cellv fulfilled_count_snoc Return increment_def store_def)
    next
      fix j u assume "(j, Return u) \<in> set (D @ [(i, out)])"
      then show "j < length (results (cells ?s' ?k))" using R by blast
    next
      fix j u assume "(j, Return u) \<in> set (D @ [(i, out)])"
      then show "results (cells ?s' ?k) ! j = Some u" using R by blast
    next
      show "length (results (cells ?s' ?k)) \<le> length ps"
        using I i(1) by (simp add: cellv increment_def store_def assign_props)
    next
      show "case first_error (D @ [(i, out)]) of
              None \<Rightarrow> if length (D @ [(i, out)]) = length ps
                        then state (promises ?s' ?o) = FULFILLED \<and> pvalue (promises ?s' ?o) = Array ?k
                        else fresh ?s' ?o
            | Some e \<Rightarrow> state (promises ?s' ?o) = REJECTED \<and> pvalue (promises ?s' ?o) = e"
      proof (cases "first_error D")
        case None
        then have cnt: "resultCount (cells s ?k) = length D"
          using I by (simp add: fulfilled_count_all)
        have fo: "fresh s ?o" using I None room by simp
        show ?thesis
          using fo cnt
          by (simp add: first_error_snoc None Return after_fulfil_outer[OF d(4,5,6)] sc fresh_def)
      next
        case (Some e)
        then have "state (promises s ?o) = REJECTED" "pvalue (promises s ?o) = e"
          using I by simp_all
        then show ?thesis
          by (simp add: first_error_snoc Some after_fulfil_outer[OF d(4,5,6)])
      qed
    qed
    with run show ?thesis by blast
  next
    case (Throw e)
    let ?s' = "after_reject sc ?a ?b ?c e s"
    have e: "\<not> is_promise e" using pl Throw by simp
    have run: "\<exists>r. perform n (settle_with ?a out) s = Some (?s', r)"
      using all_input_rejected[OF w d _ e, of m] outer
      by (simp add: perform_def Throw n8 fresh_def)
    have "all_inv ps sc (D @ [(i, out)]) ?s'"
      unfolding all_inv_def
    proof (intro conjI allI impI)
      fix j assume "j < length ps" "j \<notin> fst ` set (D @ [(i, out)])"
      then show "waiting ?s' sc j (ps ! j) (slot1 ?o j) (slot2 ?o j)"
        by (intro others after_reject_frame) auto
    next
      show "resultCount (cells ?s' ?k) = fulfilled_count (D @ [(i, out)])"
        using I by (simp add: after_reject_cell fulfilled_count_snoc Throw)
    next
      fix j u assume "(j, Return u) \<in> set (D @ [(i, out)])"
      then have "(j, Return u) \<in> set D" using Throw by auto
      with I show "j < length (results (cells ?s' ?k))"
        by (simp add: after_reject_cell)
    next
      fix j u assume "(j, Return u) \<in> set (D @ [(i, out)])"
      then have "(j, Return u) \<in> set D" using Throw by auto
      with I show "results (cells ?s' ?k) ! j = Some u"
        by (simp add: after_reject_cell)
    next
      show "length (results (cells ?s' ?k)) \<le> length ps"
        using I by (simp add: after_reject_cell)
    next
      show "case first_error (D @ [(i, out)]) of
              None \<Rightarrow> if length (D @ [(i, out)]) = length ps
                        then state (promises ?s' ?o) = FULFILLED \<and> pvalue (promises ?s' ?o) = Array ?k
                        else fresh ?s' ?o
            | Some e \<Rightarrow> state (promises ?s' ?o) = REJECTED \<and> pvalue (promises ?s' ?o) = e"
      proof (cases "first_error D")
        case None
        have fo: "fresh s ?o" using I None room by simp
        show ?thesis
          using fo
          by (simp add: first_error_snoc None Throw after_reject_outer[OF d(4,5,6)] fresh_def)
      next
        case (Some e0)
        then have "state (promises s ?o) = REJECTED" "pvalue (promises s ?o) = e0"
          using I by simp_all
        then show ?thesis
          by (simp add: first_error_snoc Some after_reject_outer[OF d(4,5,6)])
      qed
    qed
    with run show ?thesis by blast
  qed
qed

lemma all_events:
  assumes "all_inv ps sc D s" and "len sc = length ps"
    and "distinct (map fst (D @ es))" and "\<forall>j \<in> fst ` set (D @ es). j < length ps"
    and "\<forall>x \<in> set es. \<not> is_promise (payload (snd x))"
    and "distinct ps" and "\<forall>p \<in> set ps. p < self sc" and "8 \<le> n"
  shows "\<exists>s'. run n (settlements ps es) s = Some s' \<and> all_inv ps sc (D @ es) s'"
  using assms(1,3,4,5)
proof (induction es arbitrary: D s)
  case Nil
  then show ?case by (simp add: settlements_def)
next
  case (Cons x es)
  obtain i out where x: "x = (i, out)" by (cases x)
  have i: "i < length ps" "i \<notin> fst ` set D"
    using Cons.prems(2,3) by (auto simp: x image_iff)
  have D: "distinct (map fst D)" "\<forall>j \<in> fst ` set D. j < length ps"
    using Cons.prems(2,3) by auto
  have pl: "\<not> is_promise (payload out)" using Cons.prems(4) by (simp add: x)
  from all_inv_step[OF Cons.prems(1) assms(2) i D pl assms(6,7,8)]
  obtain s1 r where p: "perform n (settle_with (ps ! i) out) s = Some (s1, r)"
    and inv1: "all_inv ps sc (D @ [(i, out)]) s1" by blast
  have "\<exists>s'. run n (settlements ps es) s1 = Some s' \<and> all_inv ps sc ((D @ [(i, out)]) @ es) s'"
    using Cons.prems(2,3,4) by (intro Cons.IH[OF inv1]) (auto simp: x)
  then show ?case using p by (simp add: settlements_def x)
qed

lemma all_registers:
  assumes "ps \<noteq> []" and "distinct ps"
    and "\<forall>p \<in> set ps. p < next_promise s \<and> fresh s p"
    and "length ps + 4 \<le> n"
  shows "\<exists>s1. perform n (Combine CAll ps) s = Some (s1, Return (Promise (next_promise s)))
           \<and> all_inv ps \<lparr>cell = next_cell s, len = length ps, self = next_promise s\<rparr> [] s1"
proof -
  let ?o = "next_promise s" and ?k = "next_cell s"
  let ?sc = "\<lparr>cell = ?k, len = length ps, self = ?o\<rparr>"
  let ?s0 = "declare_results CAll
               (s\<lparr>promises := (promises s)(?o := new_promise), next_promise := Suc ?o\<rparr>)"
  from assms(4) obtain m where n: "n = Suc (Suc m)" and m: "length ps + 2 \<le> m"
    by (cases n; cases "n - 1") auto
  have reg0: "registered ps ?sc 0 ?s0"
    using assms(3)
    by (auto simp: registered_def fresh_def declare_results_def new_promise_def)
  have "\<exists>s'. forEach m CAll ?sc ps 0 ?s0 = Some (s', Return Undefined)
           \<and> registered ps ?sc (length ps) s'"
    using assms(2,3) m by (intro forEach_registers[OF reg0]) auto
  then obtain s1 where f: "forEach m CAll ?sc ps 0 ?s0 = Some (s1, Return Undefined)"
    and reg: "registered ps ?sc (length ps) s1" by blast
  have "perform n (Combine CAll ps) s = Some (s1, Return (Promise ?o))"
    by (simp add: perform_def n construct_Suc run_resolver_Suc Let_def f)
  moreover have "all_inv ps ?sc [] s1"
    using reg assms(1) by (auto simp: all_inv_def registered_def new_cell_def)
  ultimately show ?thesis by blast
qed

lemma all_indices:
  assumes "distinct xs" and "\<forall>x \<in> set xs. x < n" and "length xs = n"
  shows "set xs = {0..<n}"
proof (rule card_subset_eq)
  show "finite {0..<n}" by simp
  show "set xs \<subseteq> {0..<n}" using assms(2) by auto
  show "card (set xs) = card {0..<n}" using assms(1,3) by (simp add: distinct_card)
qed

text \<open>
  Where \<open>all\<close> does what its comment says: on a non-empty array of distinct promises
  that are pending and have no callbacks, the inputs then settling in any order, each
  through its own entry point with a value or error that is not a promise, and nothing
  else happening in between. The promise that \<open>all\<close> returned is then rejected with
  the error of the first input that rejected, whatever settles afterwards; else, once
  every input has fulfilled, it is fulfilled with the array holding at each index the
  value of that input; else it is still pending.
\<close>

lemma all_settles:
  assumes "ps \<noteq> []" and "distinct ps"
    and "\<forall>p \<in> set ps. p < next_promise s \<and> fresh s p"
    and "distinct (map fst es)"
    and "\<forall>x \<in> set es. fst x < length ps \<and> \<not> is_promise (payload (snd x))"
    and "length ps + 8 \<le> n"
  shows "\<exists>s'. run n (Combine CAll ps # settlements ps es) s = Some s'
     \<and> (case first_error es of
          Some e \<Rightarrow> state (promises s' (next_promise s)) = REJECTED
                    \<and> pvalue (promises s' (next_promise s)) = e
        | None \<Rightarrow>
            if length es = length ps
            then state (promises s' (next_promise s)) = FULFILLED
                 \<and> pvalue (promises s' (next_promise s)) = Array (next_cell s)
                 \<and> results (cells s' (next_cell s))
                     = map (\<lambda>i. map_option payload (map_of es i)) [0..<length ps]
            else state (promises s' (next_promise s)) = PENDING)"
proof -
  let ?o = "next_promise s" and ?k = "next_cell s"
  let ?sc = "\<lparr>cell = ?k, len = length ps, self = ?o\<rparr>"
  have n4: "length ps + 4 \<le> n" and n8: "8 \<le> n" using assms(6) by simp_all
  from all_registers[OF assms(1,2,3) n4]
  obtain s1 where r1: "perform n (Combine CAll ps) s = Some (s1, Return (Promise ?o))"
    and inv1: "all_inv ps ?sc [] s1" by blast
  have "\<exists>s'. run n (settlements ps es) s1 = Some s' \<and> all_inv ps ?sc ([] @ es) s'"
    using assms(2,3,4,5) n8 by (intro all_events[OF inv1]) auto
  then obtain s' where r2: "run n (settlements ps es) s1 = Some s'"
    and inv: "all_inv ps ?sc es s'" by auto
  note I = inv[unfolded all_inv_def, simplified]
  have run: "run n (Combine CAll ps # settlements ps es) s = Some s'"
    using r1 r2 by simp
  have res: "results (cells s' ?k) = map (\<lambda>i. map_option payload (map_of es i)) [0..<length ps]"
    if ne: "first_error es = None" and len: "length es = length ps"
  proof -
    have idx: "set (map fst es) = {0..<length ps}"
      using assms(4,5) len by (intro all_indices) auto
    have each: "i < length (results (cells s' ?k))
                \<and> results (cells s' ?k) ! i = map_option payload (map_of es i)"
      if i: "i < length ps" for i
    proof -
      from idx i have "i \<in> fst ` set es" by auto
      then obtain out where m: "(i, out) \<in> set es" by force
      from no_error_Return[OF ne m] obtain v where out: "out = Return v" by blast
      have "map_of es i = Some out" using assms(4) m by (rule map_of_is_SomeI)
      with I m show ?thesis by (auto simp: out)
    qed
    have "length (results (cells s' ?k)) = length ps"
    proof -
      from assms(1) obtain l where l: "length ps = Suc l" by (cases ps) auto
      then have "l < length ps" by simp
      from each[OF this] have "l < length (results (cells s' ?k))" by simp
      with l have "length ps \<le> length (results (cells s' ?k))" by simp
      with I show ?thesis by simp
    qed
    then show ?thesis using each by (intro nth_equalityI) auto
  qed
  show ?thesis
  proof (cases "first_error es")
    case None
    then show ?thesis using run I res by (auto simp: fresh_def)
  next
    case (Some e)
    then show ?thesis using run I by auto
  qed
qed

lemma all_settles_example:
  "[0, 1, 2] \<noteq> [] \<and> distinct [0, 1, 2::nat]
   \<and> list_all (\<lambda>p. p < next_promise three_pending \<and> fresh three_pending p) [0, 1, 2]
   \<and> distinct (map fst [(2, Return (Num 30)), (0, Return (Num 10)), (1::nat, Return (Num 20))])
   \<and> list_all (\<lambda>x. fst x < length [0, 1, 2::nat] \<and> \<not> is_promise (payload (snd x)))
        [(2, Return (Num 30)), (0, Return (Num 10)), (1, Return (Num 20))]
   \<and> length [0, 1, 2::nat] + 8 \<le> 11
   \<and> (\<exists>s'. run 11 (Combine CAll [0, 1, 2]
                      # settlements [0, 1, 2]
                          [(2, Return (Num 30)), (0, Return (Num 10)), (1, Return (Num 20))])
              three_pending = Some s'
          \<and> state (promises s' (next_promise three_pending)) = FULFILLED
          \<and> pvalue (promises s' (next_promise three_pending)) = Array (next_cell three_pending)
          \<and> results (cells s' (next_cell three_pending))
               = [Some (Num 10), Some (Num 20), Some (Num 30)])"
proof -
  have h1: "[0, 1, 2::nat] \<noteq> []" and h2: "distinct [0, 1, 2::nat]" by simp_all
  have h3: "\<forall>p \<in> set [0, 1, 2]. p < next_promise three_pending \<and> fresh three_pending p"
    by (simp add: three_pending_def empty_heap_def new_promise_def fresh_def)
  have h4: "distinct (map fst [(2, Return (Num 30)), (0, Return (Num 10)), (1::nat, Return (Num 20))])"
    by simp
  have h5: "\<forall>x \<in> set [(2, Return (Num 30)), (0, Return (Num 10)), (1, Return (Num 20))].
          fst x < length [0, 1, 2::nat] \<and> \<not> is_promise (payload (snd x))"
    by (simp add: is_promise_def)
  have h6: "length [0, 1, 2::nat] + 8 \<le> 11" by simp
  have u: "[0..<3] = [0, 1, 2]" by (simp add: upt_rec)
  show ?thesis
    using h1 h2 h3 h4 h5 h6 all_settles [OF h1 h2 h3 h4 h5 h6]
    by (simp add: u list_all_iff)
qed

text \<open>
  C7, at \<open>const r = MyPromise.all([p0]); p0.then(x => { throw "oops" }); resolve0(1)\<close>.
  The comment on \<open>all\<close> says that it resolves when all promises of the array are
  fulfilled. Here the only input (promise 0) is fulfilled and the promise of \<open>all\<close>
  (promise 2) stays pending. The handler registered after the call of \<open>all\<close> runs
  first, since \<open>pop\<close> takes the callback pushed last; it throws, the promise \<open>then\<close>
  returned for it has no rejection callback, and the UncaughtPromiseError of
  \<open>#onFailed\<close> leaves the \<open>while\<close> loop of \<open>#runCallbacks\<close>, which has no
  \<open>try\<close>, before the callback of \<open>all\<close> has run. Without that handler the same
  calls fulfil promise 2.
\<close>

theorem all_misses_a_fulfilment:
  "state_of 0 (run 20 [Combine CAll [0], Then 0 (Some (User 7 (\<lambda>x. Throw (Str ''oops'')))) None,
                       Fulfil 0 (Num 1)] pending_heap) = Some FULFILLED
   \<and> state_of 2 (run 20 [Combine CAll [0], Then 0 (Some (User 7 (\<lambda>x. Throw (Str ''oops'')))) None,
                       Fulfil 0 (Num 1)] pending_heap) = Some PENDING
   \<and> state_of 2 (run 20 [Combine CAll [0], Fulfil 0 (Num 1)] pending_heap) = Some FULFILLED"
  by (simp add: exec_simps cong: let_weak_cong)

section \<open>Errors thrown in a chain\<close>

text \<open>Running the methods on a heap of which only some promises are known.\<close>

lemmas sym_exec =
  construct_Suc run_resolver_Suc call_Suc runCallbacks_Suc onSuccess_plain onFailed_plain
  onSuccess_settled onFailed_settled perform_def then'_def catch'_def
  push_def upd_def settle_def cbs_def set_cbs_def new_promise_def ret_def Let_def

lemma fuel12:
  "12 \<le> n \<Longrightarrow>
   \<exists>m. n = Suc (Suc (Suc (Suc (Suc (Suc (Suc (Suc (Suc (Suc (Suc (Suc m)))))))))))"
  by (rule exI[of _ "n - 12"]) simp

lemma chain_pending:
  assumes "fresh s F" and "F < next_promise s"
    and "\<not> is_promise v" and "\<not> is_promise e" and "\<not> is_promise (payload (hf e))"
    and "12 \<le> n"
  shows "\<exists>s'. run n (chain_at F (next_promise s) (User i (\<lambda>x. Throw e)) g (User j hf)
                      @ [Fulfil F v]) s = Some s'
        \<and> calls s' = calls s @ [(i, v), (j, e)]
        \<and> rejected_with e s' (next_promise s)
        \<and> rejected_with e s' (Suc (next_promise s))
        \<and> settled_like (hf e) s' (Suc (Suc (next_promise s)))"
proof -
  from fuel12[OF assms(6)] obtain m
    where n: "n = Suc (Suc (Suc (Suc (Suc (Suc (Suc (Suc (Suc (Suc (Suc (Suc m)))))))))))" ..
  show ?thesis
  proof (cases "hf e")
    case (Return r)
    with assms show ?thesis
      by (simp add: n chain_at_def fresh_def rejected_with_def settled_like_def sym_exec
            is_promise_def)
  next
    case (Throw x)
    with assms show ?thesis
      by (simp add: n chain_at_def fresh_def rejected_with_def settled_like_def sym_exec
            is_promise_def)
  qed
qed


lemma chain_fulfilled:
  assumes "state (promises s F) = FULFILLED" and "pvalue (promises s F) = v"
    and "thenCbs (promises s F) = []" and "F < next_promise s"
    and "\<not> is_promise e" and "\<not> is_promise (payload (hf e))"
    and "12 \<le> n"
  shows "\<exists>s'. run n (chain_at F (next_promise s) (User i (\<lambda>x. Throw e)) g (User j hf)) s
                = Some s'
        \<and> calls s' = calls s @ [(i, v), (j, e)]
        \<and> rejected_with e s' (next_promise s)
        \<and> rejected_with e s' (Suc (next_promise s))
        \<and> settled_like (hf e) s' (Suc (Suc (next_promise s)))"
proof -
  from fuel12[OF assms(7)] obtain m
    where n: "n = Suc (Suc (Suc (Suc (Suc (Suc (Suc (Suc (Suc (Suc (Suc (Suc m)))))))))))" ..
  show ?thesis
  proof (cases "hf e")
    case (Return r)
    with assms show ?thesis
      by (simp add: n chain_at_def rejected_with_def settled_like_def sym_exec is_promise_def)
  next
    case (Throw x)
    with assms show ?thesis
      by (simp add: n chain_at_def rejected_with_def settled_like_def sym_exec is_promise_def)
  qed
qed

lemma bare_then_forwards:
  assumes "fresh s F" and "F < next_promise s" and "\<not> is_promise e" and "12 \<le> n"
  shows "\<exists>s'. run n [Then F (Some g) None, Reject F e] s = Some s'
           \<and> calls s' = calls s \<and> rejected_with e s' (next_promise s)"
proof -
  from fuel12[OF assms(4)] obtain m
    where n: "n = Suc (Suc (Suc (Suc (Suc (Suc (Suc (Suc (Suc (Suc (Suc (Suc m)))))))))))" ..
  from assms show ?thesis
    by (simp add: n fresh_def rejected_with_def sym_exec is_promise_def)
qed




end
